theory Spec2Isabelle
  imports Main "HOL-Library.AList"
begin

section \<open>Data model\<close>

text \<open>
  A Python dictionary is an association list in insertion order: assigning to a key that
  is present replaces its value in place, assigning to a new key appends it
  (\<^const>\<open>AList.update\<close>); \<^const>\<open>map_of\<close> is the lookup. The capacity graph, the
  residual graph and the flow map are dictionaries of dictionaries of integers.
\<close>

type_synonym 'a graph = "('a \<times> ('a \<times> int) list) list"

type_synonym 'a parents = "('a \<times> 'a option) list"

text \<open>The only exception the engine can raise is the \<open>KeyError\<close> of a failed lookup.\<close>

datatype error = KeyError

text \<open>A Python number that is an \<open>int\<close> or \<open>float('inf')\<close>.\<close>

datatype pynum = Fin int | PInf

text \<open>\<open>min(path_flow, c)\<close> for an integer \<open>c\<close>.\<close>

fun pymin :: "pynum \<Rightarrow> int \<Rightarrow> pynum" where
  "pymin PInf c = Fin c"
| "pymin (Fin a) c = Fin (min a c)"

fun pyadd :: "pynum \<Rightarrow> pynum \<Rightarrow> pynum" where
  "pyadd (Fin a) (Fin b) = Fin (a + b)"
| "pyadd _ _ = PInf"

text \<open>The row \<open>m[u]\<close> of a dictionary of dictionaries, empty when \<open>u\<close> is not a key.\<close>

definition row_of :: "'a graph \<Rightarrow> 'a \<Rightarrow> ('a \<times> int) list" where
  "row_of m u = (case map_of m u of None \<Rightarrow> [] | Some row \<Rightarrow> row)"

text \<open>Reading entry \<open>m[u][v]\<close> with the default \<open>0\<close> of an absent edge.\<close>

definition get2 :: "'a graph \<Rightarrow> 'a \<Rightarrow> 'a \<Rightarrow> int" where
  "get2 m u v = (case map_of (row_of m u) v of None \<Rightarrow> 0 | Some x \<Rightarrow> x)"

text \<open>The node set of a graph: its keys and the heads of its edges.\<close>

definition nodes :: "'a graph \<Rightarrow> 'a list" where
  "nodes g = map fst g @ concat (map (\<lambda>(u, adj). map fst adj) g)"

text \<open>A dictionary of dictionaries has no repeated key at either level.\<close>

definition wf_graph :: "'a graph \<Rightarrow> bool" where
  "wf_graph g \<longleftrightarrow> distinct (map fst g) \<and> list_all (\<lambda>(u, adj). distinct (map fst adj)) g"

definition nonneg_graph :: "'a graph \<Rightarrow> bool" where
  "nonneg_graph g \<longleftrightarrow> list_all (\<lambda>(u, adj). list_all (\<lambda>(v, c). 0 \<le> c) adj) g"

section \<open>The residual graph of \<open>edmonds_karp\<close>\<close>

text \<open>
  Lines 29-32: \<open>if v not in residual: residual[v] = {}\<close>, then
  \<open>if u not in residual[v]: residual[v][u] = 0\<close>.
\<close>

definition add_reverse :: "'a \<Rightarrow> 'a \<Rightarrow> 'a graph \<Rightarrow> 'a graph" where
  "add_reverse u v residual =
     (let residual1 = (case map_of residual v of None \<Rightarrow> AList.update v [] residual
                       | Some _ \<Rightarrow> residual)
      in case map_of (row_of residual1 v) u of
           None \<Rightarrow> AList.update v (AList.update u 0 (row_of residual1 v)) residual1
         | Some _ \<Rightarrow> residual1)"

text \<open>Lines 24-32: the copy of the graph, then the two nested loops over its edges.\<close>

definition init_residual :: "'a graph \<Rightarrow> 'a graph" where
  "init_residual graph =
     fold (\<lambda>(u, adj) residual. fold (\<lambda>(v, c) residual. add_reverse u v residual) adj residual)
       graph graph"

section \<open>Breadth-first search\<close>

text \<open>Lines 44-49: the loop over \<open>residual[current].items()\<close>, with its \<open>break\<close>.\<close>

fun bfs_scan :: "'a \<Rightarrow> 'a \<Rightarrow> ('a \<times> int) list \<Rightarrow> 'a parents \<Rightarrow> 'a list
    \<Rightarrow> error + ('a parents \<times> 'a list)" where
  "bfs_scan sink current [] parent queue = Inr (parent, queue)"
| "bfs_scan sink current ((neighbor, capacity) # rest) parent queue =
     (if capacity > 0 then
        (case map_of parent neighbor of
           None \<Rightarrow> Inl KeyError
         | Some (Some p) \<Rightarrow> bfs_scan sink current rest parent queue
         | Some None \<Rightarrow>
             (let parent' = AList.update neighbor (Some current) parent;
                  queue' = queue @ [neighbor]
              in if neighbor = sink then Inr (parent', queue')
                 else bfs_scan sink current rest parent' queue'))
      else bfs_scan sink current rest parent queue)"

text \<open>The number of nodes not yet discovered.\<close>

definition unseen :: "'a parents \<Rightarrow> nat" where
  "unseen parent = length (filter (\<lambda>(n, p). p = None) parent)"

lemma unseen_update:
  "map_of parent n = Some None \<Longrightarrow> Suc (unseen (AList.update n (Some c) parent)) = unseen parent"
  unfolding unseen_def by (induction parent) (auto split: if_splits)

lemma bfs_scan_measure:
  "bfs_scan sink current adj parent queue = Inr (parent', queue')
   \<Longrightarrow> unseen parent' + length queue' = unseen parent + length queue"
proof (induction adj arbitrary: parent queue)
  case Nil
  then show ?case by simp
next
  case (Cons e adj)
  obtain neighbor capacity where e: "e = (neighbor, capacity)" by (cases e)
  show ?case
  proof (cases "capacity > 0 \<and> map_of parent neighbor = Some None")
    case True
    then have u: "Suc (unseen (AList.update neighbor (Some current) parent)) = unseen parent"
      using unseen_update by fastforce
    show ?thesis
    proof (cases "neighbor = sink")
      case True
      with Cons.prems e \<open>capacity > 0 \<and> _\<close> u show ?thesis by auto
    next
      case False
      with Cons.prems e \<open>capacity > 0 \<and> _\<close>
      have "bfs_scan sink current adj (AList.update neighbor (Some current) parent)
              (queue @ [neighbor]) = Inr (parent', queue')" by simp
      from Cons.IH [OF this] u show ?thesis by simp
    qed
  next
    case False
    with Cons.prems e have "bfs_scan sink current adj parent queue = Inr (parent', queue')"
      by (auto split: if_splits option.splits)
    from Cons.IH [OF this] show ?thesis .
  qed
qed

text \<open>Lines 42-49: \<open>while queue and parent[sink] is None\<close>.\<close>

function bfs_loop :: "'a graph \<Rightarrow> 'a \<Rightarrow> 'a parents \<Rightarrow> 'a list \<Rightarrow> error + 'a parents" where
  "bfs_loop residual sink parent queue =
     (case queue of
        [] \<Rightarrow> Inr parent
      | current # rest \<Rightarrow>
          (case map_of parent sink of
             None \<Rightarrow> Inl KeyError
           | Some (Some p) \<Rightarrow> Inr parent
           | Some None \<Rightarrow>
               (case map_of residual current of
                  None \<Rightarrow> Inl KeyError
                | Some adj \<Rightarrow>
                    (case bfs_scan sink current adj parent rest of
                       Inl e \<Rightarrow> Inl e
                     | Inr (parent', queue') \<Rightarrow> bfs_loop residual sink parent' queue'))))"
  by pat_completeness auto
termination
proof (relation "measure (\<lambda>(residual, sink, parent, queue). unseen parent + length queue)")
  show "wf (measure (\<lambda>(residual, sink, parent, queue). unseen parent + length queue))" by simp
next
  fix residual :: "'a graph" and sink parent queue current rest x2 adj x2b and xa :: "'a parents \<times> 'a list"
    and parent' queue'
  assume "queue = current # rest" "bfs_scan sink current adj parent rest = Inr xa"
    "(parent', queue') = xa"
  then have "bfs_scan sink current adj parent rest = Inr (parent', queue')" by simp
  from bfs_scan_measure [OF this] \<open>queue = current # rest\<close>
  show "((residual, sink, parent', queue'), residual, sink, parent, queue)
        \<in> measure (\<lambda>(residual, sink, parent, queue). unseen parent + length queue)"
    by simp
qed

text \<open>Lines 37-39: every node of the residual graph undiscovered, the source its own parent.\<close>

definition init_parent :: "'a graph \<Rightarrow> 'a \<Rightarrow> 'a parents" where
  "init_parent residual source =
     AList.update source (Some source) (map (\<lambda>(node, adj). (node, None)) residual)"

section \<open>Augmentation\<close>

text \<open>
  Lines 56-61: the walk from the sink along the parents that computes the bottleneck.
  \<open>prev = None\<close> makes \<open>residual[prev]\<close> raise \<open>KeyError\<close>. The walk may run forever on a
  parent map with a cycle, so its result is an option.
\<close>

partial_function (option) find_path_flow ::
    "'a graph \<Rightarrow> 'a parents \<Rightarrow> 'a \<Rightarrow> 'a \<Rightarrow> pynum \<Rightarrow> (error + pynum) option" where
  "find_path_flow residual parent source node path_flow =
     (if node = source then Some (Inr path_flow)
      else case map_of parent node of
             None \<Rightarrow> Some (Inl KeyError)
           | Some None \<Rightarrow> Some (Inl KeyError)
           | Some (Some prev) \<Rightarrow>
               (case map_of residual prev of
                  None \<Rightarrow> Some (Inl KeyError)
                | Some row \<Rightarrow>
                    (case map_of row node of
                       None \<Rightarrow> Some (Inl KeyError)
                     | Some c \<Rightarrow>
                         find_path_flow residual parent source prev (pymin path_flow c))))"

declare find_path_flow.simps [code]

text \<open>
  \<open>flow[u][v] += d\<close> on the \<open>defaultdict\<close> of \<open>defaultdict(int)\<close>: reading \<open>flow[u]\<close> and
  \<open>flow[u][v]\<close> creates the missing entries.
\<close>

definition flow_add :: "'a \<Rightarrow> 'a \<Rightarrow> int \<Rightarrow> 'a graph \<Rightarrow> 'a graph" where
  "flow_add u v d flow =
     AList.update u (AList.update v (get2 flow u v + d) (row_of flow u)) flow"

text \<open>\<open>residual[u][v] += d\<close> on the plain dictionaries: a missing key raises.\<close>

definition residual_add :: "'a \<Rightarrow> 'a \<Rightarrow> int \<Rightarrow> 'a graph \<Rightarrow> error + 'a graph" where
  "residual_add u v d residual =
     (case map_of residual u of
        None \<Rightarrow> Inl KeyError
      | Some row \<Rightarrow>
          (case map_of row v of
             None \<Rightarrow> Inl KeyError
           | Some x \<Rightarrow> Inr (AList.update u (AList.update v (x + d) row) residual)))"

text \<open>Lines 64-71: the second walk, which updates the flow and the residual capacities.\<close>

partial_function (option) apply_path ::
    "'a parents \<Rightarrow> 'a \<Rightarrow> 'a \<Rightarrow> int \<Rightarrow> 'a graph \<Rightarrow> 'a graph
     \<Rightarrow> (error + ('a graph \<times> 'a graph)) option" where
  "apply_path parent source node path_flow flow residual =
     (if node = source then Some (Inr (flow, residual))
      else case map_of parent node of
             None \<Rightarrow> Some (Inl KeyError)
           | Some None \<Rightarrow> Some (Inl KeyError)
           | Some (Some prev) \<Rightarrow>
               (let flow1 = flow_add prev node path_flow flow;
                    flow2 = flow_add node prev (- path_flow) flow1
                in case residual_add prev node (- path_flow) residual of
                     Inl e \<Rightarrow> Some (Inl e)
                   | Inr residual1 \<Rightarrow>
                       (case residual_add node prev path_flow residual1 of
                          Inl e \<Rightarrow> Some (Inl e)
                        | Inr residual2 \<Rightarrow>
                            apply_path parent source prev path_flow flow2 residual2)))"

declare apply_path.simps [code]

section \<open>The main loop\<close>

text \<open>
  Lines 35-73. \<open>path_flow\<close> is still \<open>float('inf')\<close> after the first walk only when that
  walk made no step (lemma \<open>find_path_flow_PInf\<close>); the second walk then makes no step
  either, so the dictionaries are untouched and only \<open>max_flow\<close> absorbs the infinity.
\<close>

partial_function (option) ek_loop ::
    "'a \<Rightarrow> 'a \<Rightarrow> 'a graph \<Rightarrow> 'a graph \<Rightarrow> pynum \<Rightarrow> (error + (pynum \<times> 'a graph)) option" where
  "ek_loop source sink flow residual max_flow =
     (case bfs_loop residual sink (init_parent residual source) [source] of
        Inl e \<Rightarrow> Some (Inl e)
      | Inr parent \<Rightarrow>
          (case map_of parent sink of
             None \<Rightarrow> Some (Inl KeyError)
           | Some None \<Rightarrow> Some (Inr (max_flow, flow))
           | Some (Some p) \<Rightarrow>
               (case find_path_flow residual parent source sink PInf of
                  None \<Rightarrow> None
                | Some (Inl e) \<Rightarrow> Some (Inl e)
                | Some (Inr PInf) \<Rightarrow> ek_loop source sink flow residual (pyadd max_flow PInf)
                | Some (Inr (Fin path_flow)) \<Rightarrow>
                    (case apply_path parent source sink path_flow flow residual of
                       None \<Rightarrow> None
                     | Some (Inl e) \<Rightarrow> Some (Inl e)
                     | Some (Inr (flow', residual')) \<Rightarrow>
                         ek_loop source sink flow' residual'
                           (pyadd max_flow (Fin path_flow))))))"

declare ek_loop.simps [code]

definition edmonds_karp :: "'a graph \<Rightarrow> 'a \<Rightarrow> 'a \<Rightarrow> (error + (pynum \<times> 'a graph)) option" where
  "edmonds_karp graph source sink = ek_loop source sink [] (init_residual graph) (Fin 0)"

section \<open>The reference network\<close>

definition shops :: "string list" where
  "shops = [''Shop 1'', ''Shop 2'', ''Shop 3'', ''Shop 4'', ''Shop 5'', ''Shop 6'', ''Shop 7'',
            ''Shop 8'', ''Shop 9'', ''Shop 10'', ''Shop 11'', ''Shop 12'', ''Shop 13'', ''Shop 14'']"

definition terminals :: "string list" where
  "terminals = [''Terminal 1'', ''Terminal 2'']"

definition warehouses :: "string list" where
  "warehouses = [''Warehouse 1'', ''Warehouse 2'', ''Warehouse 3'', ''Warehouse 4'']"

definition INF_capacity :: int where
  "INF_capacity = 10 ^ 9"

text \<open>
  \<open>graph[u][v] = c\<close> on the \<open>defaultdict(dict)\<close> of \<open>build_logistics_graph\<close>: a missing
  \<open>graph[u]\<close> is created empty first.
\<close>

definition set_edge :: "'a \<Rightarrow> 'a \<Rightarrow> int \<Rightarrow> 'a graph \<Rightarrow> 'a graph" where
  "set_edge u v c graph =
     AList.update u (AList.update v c (row_of graph u)) graph"

definition build_logistics_graph :: "string graph" where
  "build_logistics_graph =
     fold (\<lambda>shop graph. set_edge shop ''T'' INF_capacity graph) shops
       (fold (\<lambda>(u, v, c) graph. set_edge u v c graph)
          [(''S'', ''Terminal 1'', 25 + 20 + 15),
           (''S'', ''Terminal 2'', 15 + 30 + 10),
           (''Terminal 1'', ''Warehouse 1'', 25),
           (''Terminal 1'', ''Warehouse 2'', 20),
           (''Terminal 1'', ''Warehouse 3'', 15),
           (''Terminal 2'', ''Warehouse 3'', 15),
           (''Terminal 2'', ''Warehouse 4'', 30),
           (''Terminal 2'', ''Warehouse 2'', 10),
           (''Warehouse 1'', ''Shop 1'', 15),
           (''Warehouse 1'', ''Shop 2'', 10),
           (''Warehouse 1'', ''Shop 3'', 20),
           (''Warehouse 2'', ''Shop 4'', 15),
           (''Warehouse 2'', ''Shop 5'', 10),
           (''Warehouse 2'', ''Shop 6'', 25),
           (''Warehouse 3'', ''Shop 7'', 20),
           (''Warehouse 3'', ''Shop 8'', 15),
           (''Warehouse 3'', ''Shop 9'', 10),
           (''Warehouse 4'', ''Shop 10'', 20),
           (''Warehouse 4'', ''Shop 11'', 10),
           (''Warehouse 4'', ''Shop 12'', 15),
           (''Warehouse 4'', ''Shop 13'', 5),
           (''Warehouse 4'', ''Shop 14'', 10)]
          [])"

section \<open>Definitions for the proofs\<close>

definition shape :: "'a graph \<Rightarrow> ('a \<times> 'a list) list" where
  "shape m = map (\<lambda>(u, row). (u, map fst row)) m"

definition ent :: "'a graph \<Rightarrow> 'a \<Rightarrow> 'a \<Rightarrow> bool" where
  "ent m u v \<longleftrightarrow> v \<in> fst ` set (row_of m u)"

definition keys :: "('a \<times> 'b) list \<Rightarrow> 'a set" where
  "keys m = fst ` set m"

definition edges_list :: "'a graph \<Rightarrow> ('a \<times> 'a) list" where
  "edges_list g = concat (map (\<lambda>(u, adj). map (\<lambda>(v, c). (u, v)) adj) g)"

definition res_ok :: "'a graph \<Rightarrow> bool" where
  "res_ok r \<longleftrightarrow> wf_graph r \<and> (\<forall>u v. ent r u v \<longrightarrow> ent r v u)"

definition visited :: "'a parents \<Rightarrow> 'a \<Rightarrow> bool" where
  "visited parent n \<longleftrightarrow> (\<exists>p. map_of parent n = Some (Some p))"

inductive pchain :: "'a parents \<Rightarrow> 'a \<Rightarrow> 'a \<Rightarrow> ('a \<times> 'a) list \<Rightarrow> bool"
  for parent :: "'a parents" and source :: 'a where
  pchain_source: "pchain parent source source []"
| pchain_step: "n \<noteq> source \<Longrightarrow> map_of parent n = Some (Some p) \<Longrightarrow> pchain parent source p es
     \<Longrightarrow> pchain parent source n ((p, n) # es)"

definition bfs_inv :: "'a graph \<Rightarrow> 'a \<Rightarrow> 'a parents \<Rightarrow> bool" where
  "bfs_inv r source parent \<longleftrightarrow>
     keys parent = keys r \<and> map_of parent source = Some (Some source)
     \<and> (\<forall>n p. map_of parent n = Some (Some p) \<and> n \<noteq> source
            \<longrightarrow> visited parent p \<and> ent r p n \<and> 0 < get2 r p n)
     \<and> (\<forall>n. visited parent n \<longrightarrow> (\<exists>es. pchain parent source n es))"

definition path_min :: "'a graph \<Rightarrow> ('a \<times> 'a) list \<Rightarrow> pynum \<Rightarrow> pynum" where
  "path_min r es pf = fold (\<lambda>(a, b) pf. pymin pf (get2 r a b)) es pf"

definition ek_inv :: "'a graph \<Rightarrow> 'a \<Rightarrow> 'a \<Rightarrow> 'a graph \<Rightarrow> 'a graph \<Rightarrow> pynum \<Rightarrow> bool" where
  "ek_inv g s t flow r mf \<longleftrightarrow>
     shape r = shape (init_residual g)
     \<and> (\<forall>a b. get2 r a b = get2 g a b - get2 flow a b)
     \<and> (\<forall>a b. get2 flow a b = - get2 flow b a)
     \<and> wf_graph flow
     \<and> (\<forall>a b. get2 flow a b \<noteq> 0 \<longrightarrow> a \<in> set (nodes g) \<and> b \<in> set (nodes g))
     \<and> (\<forall>u. u \<noteq> s \<and> u \<noteq> t \<longrightarrow> (\<Sum>v \<in> set (nodes g). get2 flow u v) = 0)
     \<and> mf = Fin (\<Sum>v \<in> set (nodes g). get2 flow s v)"

definition src_measure :: "'a set \<Rightarrow> 'a graph \<Rightarrow> 'a \<Rightarrow> nat" where
  "src_measure N r s = (\<Sum>v \<in> N. nat (get2 r s v))"

text \<open>
  The positive flow leaving and entering a node, read off the flow map itself: the positive
  entries of the row of \<open>u\<close>, and the positive entries for \<open>u\<close> in all rows.
\<close>

definition outflow :: "'a graph \<Rightarrow> 'a \<Rightarrow> int" where
  "outflow flow u = sum_list (map (\<lambda>(v, f). max 0 f) (row_of flow u))"

definition inflow :: "'a graph \<Rightarrow> 'a \<Rightarrow> int" where
  "inflow flow u =
     sum_list (map (\<lambda>(w, row). max 0 (case map_of row u of None \<Rightarrow> 0 | Some f \<Rightarrow> f)) flow)"

text \<open>
  A cut is a set of nodes that holds the source and not the sink; its capacity is the sum of
  the capacities of the edges that leave it.
\<close>

definition cuts :: "'a graph \<Rightarrow> 'a \<Rightarrow> 'a \<Rightarrow> 'a set set" where
  "cuts g s t = {S \<in> Pow (set (nodes g)). s \<in> S \<and> t \<notin> S}"

definition cut_capacity :: "'a graph \<Rightarrow> 'a set \<Rightarrow> int" where
  "cut_capacity g S = (\<Sum>u \<in> S. \<Sum>v \<in> set (nodes g) - S. get2 g u v)"

definition min_cut_capacity :: "'a graph \<Rightarrow> 'a \<Rightarrow> 'a \<Rightarrow> int" where
  "min_cut_capacity g s t = Min (cut_capacity g ` cuts g s t)"

text \<open>The edges of positive capacity.\<close>

definition pos_edges :: "'a graph \<Rightarrow> ('a \<times> 'a) list" where
  "pos_edges g = concat (map (\<lambda>(u, row). map (\<lambda>(v, c). (u, v)) (filter (\<lambda>(v, c). 0 < c) row)) g)"

text \<open>
  Scenario A: \<open>S\<rightarrow>A\<close> (10), \<open>S\<rightarrow>B\<close> (5), \<open>A\<rightarrow>T\<close> (10), \<open>B\<rightarrow>T\<close> (5), and the flow map
  that \<open>edmonds_karp\<close> computes on it.
\<close>

definition scenario_a :: "string graph" where
  "scenario_a = [(''S'', [(''A'', 10), (''B'', 5)]), (''A'', [(''T'', 10)]), (''B'', [(''T'', 5)])]"

definition scenario_a_flow :: "string graph" where
  "scenario_a_flow =
     [(''A'', [(''T'', 10), (''S'', - 10)]),
      (''T'', [(''A'', - 10), (''B'', - 5)]),
      (''S'', [(''A'', 10), (''B'', 5)]),
      (''B'', [(''T'', 5), (''S'', - 5)])]"

section \<open>Lemmas\<close>

lemma keys_dom: "keys m = dom (map_of m)"
  by (simp add: keys_def dom_map_of_conv_image_fst)

lemma map_of_None_keys: "map_of m u = None \<longleftrightarrow> u \<notin> keys m"
  by (simp add: keys_def map_of_eq_None_iff)

lemma map_fst_shape: "map fst (shape m) = map fst m"
  by (induction m) (auto simp: shape_def)

lemma keys_shape: "shape m = shape m' \<Longrightarrow> keys m = keys m'"
  by (metis keys_def map_fst_shape set_map)

lemma map_of_shape: "map_of (shape m) u = map_option (map fst) (map_of m u)"
  by (induction m) (auto simp: shape_def)

lemma row_of_shape: "shape m = shape m' \<Longrightarrow> map fst (row_of m u) = map fst (row_of m' u)"
proof -
  assume "shape m = shape m'"
  then have "map_option (map fst) (map_of m u) = map_option (map fst) (map_of m' u)"
    by (metis map_of_shape)
  then show ?thesis
    by (cases "map_of m u"; cases "map_of m' u") (auto simp: row_of_def)
qed

lemma ent_shape: "shape m = shape m' \<Longrightarrow> ent m u v = ent m' u v"
  unfolding ent_def by (metis row_of_shape set_map)

lemma ent_keys: "ent m u v \<Longrightarrow> u \<in> keys m"
  unfolding ent_def row_of_def keys_def
  by (cases "map_of m u") (auto dest: map_of_SomeD intro: rev_image_eqI)

lemma get2_not_ent: "\<not> ent m u v \<Longrightarrow> get2 m u v = 0"
  unfolding ent_def get2_def by (auto dest: map_of_SomeD intro: rev_image_eqI split: option.splits)

lemma row_of_update: "row_of (AList.update u row m) a = (if a = u then row else row_of m a)"
  by (simp add: row_of_def update_conv')

lemma get2_update:
  "get2 (AList.update u (AList.update v x (row_of m u)) m) a b
     = (if a = u \<and> b = v then x else get2 m a b)"
  by (simp add: get2_def row_of_update update_conv')

lemma get2_flow_add:
  "get2 (flow_add u v d f) a b = (if a = u \<and> b = v then get2 f u v + d else get2 f a b)"
  by (simp add: flow_add_def get2_update)

lemma shape_update_same:
  "map_of m u = Some row \<Longrightarrow> map fst row' = map fst row
   \<Longrightarrow> shape (AList.update u row' m) = shape m"
  by (induction m) (auto simp: shape_def)

lemma map_fst_update_same:
  "k \<in> fst ` set al \<Longrightarrow> map fst (AList.update k v al) = map fst al"
  by (induction al) auto

lemma residual_add_ok:
  assumes "ent r u v"
  shows "\<exists>r'. residual_add u v d r = Inr r' \<and> shape r' = shape r
            \<and> (\<forall>a b. get2 r' a b = (if a = u \<and> b = v then get2 r u v + d else get2 r a b))"
proof -
  from assms obtain row where row: "map_of r u = Some row"
    unfolding ent_def row_of_def by (cases "map_of r u") auto
  then have ro: "row_of r u = row" by (simp add: row_of_def)
  with assms have "v \<in> fst ` set row" by (simp add: ent_def)
  then obtain x where x: "map_of row v = Some x"
    by (cases "map_of row v") (auto simp: map_of_eq_None_iff)
  have g: "get2 r u v = x" using ro x by (simp add: get2_def)
  let ?r' = "AList.update u (AList.update v (x + d) row) r"
  have 1: "residual_add u v d r = Inr ?r'" using row x by (simp add: residual_add_def)
  have 2: "shape ?r' = shape r"
    using row \<open>v \<in> fst ` set row\<close> by (intro shape_update_same) (auto simp: map_fst_update_same)
  have 3: "\<forall>a b. get2 ?r' a b = (if a = u \<and> b = v then get2 r u v + d else get2 r a b)"
    using get2_update [of u v "x + d" r] ro g by simp
  from 1 2 3 show ?thesis by blast
qed

lemma wf_graph_shape_eq:
  "wf_graph m \<longleftrightarrow> distinct (map fst (shape m)) \<and> (\<forall>(u, ks) \<in> set (shape m). distinct ks)"
  unfolding wf_graph_def shape_def list_all_iff by (auto simp: comp_def case_prod_beta)

lemma wf_graph_shape: "shape m = shape m' \<Longrightarrow> wf_graph m = wf_graph m'"
  by (simp add: wf_graph_shape_eq)

lemma set_update_subset: "set (AList.update k v al) \<subseteq> insert (k, v) (set al)"
  by (induction al) auto

lemma wf_graph_update:
  assumes "wf_graph m" "distinct (map fst row)"
  shows "wf_graph (AList.update u row m)"
  using assms set_update_subset [of u row m]
  unfolding wf_graph_def list_all_iff by (auto simp: distinct_update)

lemma wf_graph_row: "wf_graph m \<Longrightarrow> distinct (map fst (row_of m u))"
  unfolding wf_graph_def list_all_iff row_of_def
  by (auto split: option.splits dest!: map_of_SomeD)

lemma keys_update: "keys (AList.update k v al) = insert k (keys al)"
  by (simp add: keys_def dom_update)

lemma ent_update:
  "ent (AList.update u row m) a b \<longleftrightarrow> (if a = u then b \<in> fst ` set row else ent m a b)"
  by (simp add: ent_def row_of_update)

lemma get2_update_row:
  "get2 (AList.update u row m) a b
     = (if a = u then (case map_of row b of None \<Rightarrow> 0 | Some x \<Rightarrow> x) else get2 m a b)"
  by (simp add: get2_def row_of_update)

lemma add_reverse_props:
  "keys (add_reverse u v r) = insert v (keys r)"
  "ent (add_reverse u v r) a b \<longleftrightarrow> ent r a b \<or> (a = v \<and> b = u)"
  "get2 (add_reverse u v r) a b = get2 r a b"
  "wf_graph r \<Longrightarrow> wf_graph (add_reverse u v r)"
proof -
  define r1 where "r1 = (case map_of r v of None \<Rightarrow> AList.update v [] r | Some _ \<Rightarrow> r)"
  have ar: "add_reverse u v r = (case map_of (row_of r1 v) u of
           None \<Rightarrow> AList.update v (AList.update u 0 (row_of r1 v)) r1
         | Some _ \<Rightarrow> r1)"
    unfolding add_reverse_def Let_def r1_def ..
  have k1: "keys r1 = insert v (keys r)"
  proof (cases "map_of r v")
    case None
    then show ?thesis by (simp add: r1_def keys_update)
  next
    case (Some x)
    then have "v \<in> keys r" by (auto simp: keys_dom)
    with Some show ?thesis by (auto simp: r1_def)
  qed
  have row1: "row_of r1 a = row_of r a" for a
  proof (cases "map_of r v")
    case None
    then have "row_of r v = []" by (simp add: row_of_def)
    with None show ?thesis by (simp add: r1_def row_of_update)
  next
    case (Some x)
    then show ?thesis by (simp add: r1_def)
  qed
  have e1: "ent r1 a b = ent r a b" for a b by (simp add: ent_def row1)
  have g1: "get2 r1 a b = get2 r a b" for a b by (simp add: get2_def row1)
  have w1: "wf_graph r \<Longrightarrow> wf_graph r1"
    by (auto simp: r1_def wf_graph_update split: option.splits)
  show "keys (add_reverse u v r) = insert v (keys r)"
    by (auto simp: ar k1 keys_update split: option.splits)
  show "ent (add_reverse u v r) a b \<longleftrightarrow> ent r a b \<or> (a = v \<and> b = u)"
  proof (cases "map_of (row_of r1 v) u")
    case None
    then have "ent (add_reverse u v r) a b
        \<longleftrightarrow> (if a = v then b = u \<or> ent r1 v b else ent r1 a b)"
      by (simp add: ar ent_update dom_update) (simp add: ent_def)
    then show ?thesis by (auto simp: e1)
  next
    case (Some x)
    then have "ent r1 v u"
      by (auto simp: ent_def dest!: map_of_SomeD intro: rev_image_eqI)
    with Some show ?thesis by (auto simp: ar e1)
  qed
  show "get2 (add_reverse u v r) a b = get2 r a b"
  proof (cases "map_of (row_of r1 v) u")
    case None
    then have "get2 (add_reverse u v r) a b = get2 r1 a b"
      by (simp add: ar get2_update_row update_conv') (simp add: get2_def)
    then show ?thesis by (simp add: g1)
  next
    case (Some x)
    then show ?thesis by (simp add: ar g1)
  qed
  show "wf_graph (add_reverse u v r)" if "wf_graph r"
    using w1 [OF that] wf_graph_row [of r1 v]
    by (auto simp: ar wf_graph_update distinct_update split: option.splits)
qed

lemma init_residual_fold:
  "init_residual g = fold (\<lambda>(u, v). add_reverse u v) (edges_list g) g"
proof -
  have "fold (\<lambda>(u, adj) residual. fold (\<lambda>(v, c) residual. add_reverse u v residual) adj residual) xs r
        = fold (\<lambda>(u, v). add_reverse u v) (edges_list xs) r" for xs and r :: "'a graph"
    by (induction xs arbitrary: r)
       (simp_all add: edges_list_def fold_map comp_def split_def)
  then show ?thesis by (simp add: init_residual_def)
qed

lemma fold_add_reverse:
  "keys (fold (\<lambda>(u, v). add_reverse u v) es r) = keys r \<union> snd ` set es"
  "ent (fold (\<lambda>(u, v). add_reverse u v) es r) a b \<longleftrightarrow> ent r a b \<or> (b, a) \<in> set es"
  "get2 (fold (\<lambda>(u, v). add_reverse u v) es r) a b = get2 r a b"
  "wf_graph r \<Longrightarrow> wf_graph (fold (\<lambda>(u, v). add_reverse u v) es r)"
proof (induction es arbitrary: r)
  case Nil
  {
    case 1 show ?case by simp
  next
    case 2 show ?case by simp
  next
    case 3 show ?case by simp
  next
    case 4 then show ?case by simp
  }
next
  case (Cons e es)
  obtain u v where e: "e = (u, v)" by (cases e)
  {
    case 1 show ?case unfolding e by (simp add: Cons.IH(1) add_reverse_props(1))
  next
    case 2 show ?case unfolding e by (simp add: Cons.IH(2) add_reverse_props(2)) blast
  next
    case 3 show ?case unfolding e by (simp add: Cons.IH(3) add_reverse_props(3))
  next
    case 4
    then have "wf_graph (add_reverse u v r)" by (rule add_reverse_props(4))
    from Cons.IH(4) [OF this] show ?case unfolding e by simp
  }
qed

lemma set_edges_list:
  "set (edges_list g) = {(u, v). \<exists>row c. (u, row) \<in> set g \<and> (v, c) \<in> set row}"
proof (induction g)
  case Nil
  show ?case by (simp add: edges_list_def)
next
  case (Cons e g)
  obtain u adj where e: "e = (u, adj)" by (cases e)
  have 1: "edges_list ((u, adj) # g) = map (\<lambda>(v, c). (u, v)) adj @ edges_list g"
    by (simp add: edges_list_def)
  have 2: "set (map (\<lambda>(v, c). (u, v)) adj) = {(u', v). u' = u \<and> (\<exists>c. (v, c) \<in> set adj)}"
    by force
  show ?case unfolding e 1 set_append Cons.IH 2 by auto
qed

lemma ent_edges_list: "ent g u v \<Longrightarrow> (u, v) \<in> set (edges_list g)"
proof -
  assume "ent g u v"
  then obtain row where row: "map_of g u = Some row" and "v \<in> fst ` set row"
    unfolding ent_def row_of_def by (cases "map_of g u") auto
  then obtain c where "(v, c) \<in> set row" by auto
  moreover from row have "(u, row) \<in> set g" by (rule map_of_SomeD)
  ultimately show ?thesis unfolding set_edges_list by blast
qed

lemma edges_list_ent: "wf_graph g \<Longrightarrow> (u, v) \<in> set (edges_list g) \<Longrightarrow> ent g u v"
proof -
  assume wf: "wf_graph g" and "(u, v) \<in> set (edges_list g)"
  then obtain row c where row: "(u, row) \<in> set g" and c: "(v, c) \<in> set row"
    unfolding set_edges_list by blast
  from wf have "distinct (map fst g)" by (simp add: wf_graph_def)
  with row have "map_of g u = Some row" by simp
  then have "row_of g u = row" by (simp add: row_of_def)
  with c show ?thesis unfolding ent_def by (auto intro: rev_image_eqI)
qed

lemma set_nodes: "set (nodes g) = keys g \<union> snd ` set (edges_list g)"
proof -
  have "set (concat (map (\<lambda>(u, adj). map fst adj) g)) = snd ` set (edges_list g)"
    unfolding set_edges_list by (auto simp: image_iff) (blast, force)
  then show ?thesis by (simp add: nodes_def keys_def)
qed

lemma res_ok_shape: "shape m = shape m' \<Longrightarrow> res_ok m = res_ok m'"
  unfolding res_ok_def using wf_graph_shape [of m m'] ent_shape [of m m'] by auto

lemma init_residual_props:
  "keys (init_residual g) = set (nodes g)"
  "get2 (init_residual g) a b = get2 g a b"
  "wf_graph g \<Longrightarrow> res_ok (init_residual g)"
proof -
  show "keys (init_residual g) = set (nodes g)"
    by (simp add: init_residual_fold fold_add_reverse set_nodes)
  show "get2 (init_residual g) a b = get2 g a b"
    by (simp add: init_residual_fold fold_add_reverse)
  show "res_ok (init_residual g)" if wf: "wf_graph g"
  proof -
    have e: "ent (init_residual g) a b \<longleftrightarrow> ent g a b \<or> ent g b a" for a b
      unfolding init_residual_fold fold_add_reverse
      using ent_edges_list [of g b a] edges_list_ent [OF wf, of b a] by blast
    have "wf_graph (init_residual g)"
      unfolding init_residual_fold using wf by (rule fold_add_reverse)
    with e show ?thesis unfolding res_ok_def by blast
  qed
qed

lemma map_of_keys_Some: "n \<in> keys m \<Longrightarrow> \<exists>x. map_of m n = Some x"
  by (cases "map_of m n") (auto simp: map_of_None_keys)

lemma pchain_update:
  assumes "pchain parent source n es" "map_of parent v = Some None"
  shows "pchain (AList.update v x parent) source n es"
  using assms(1)
proof (induction rule: pchain.induct)
  case pchain_source
  show ?case by (rule pchain.pchain_source)
next
  case (pchain_step n p es)
  from pchain_step(2) assms(2) have "n \<noteq> v" by auto
  then have "map_of (AList.update v x parent) n = Some (Some p)"
    using pchain_step(2) by (simp add: update_conv')
  from pchain_step(1) this pchain_step.IH show ?case by (rule pchain.pchain_step)
qed

lemma bfs_inv_update:
  assumes inv: "bfs_inv r source parent" and cur: "visited parent current"
    and v: "map_of parent v = Some None" and e: "ent r current v" and c: "0 < get2 r current v"
  shows "bfs_inv r source (AList.update v (Some current) parent)"
    and "\<And>n. visited parent n \<Longrightarrow> map_of (AList.update v (Some current) parent) n = map_of parent n"
    and "\<And>n. visited (AList.update v (Some current) parent) n \<longleftrightarrow> visited parent n \<or> n = v"
proof -
  let ?p' = "AList.update v (Some current) parent"
  have m: "map_of ?p' n = (if n = v then Some (Some current) else map_of parent n)" for n
    by (simp add: update_conv')
  show vis: "visited ?p' n \<longleftrightarrow> visited parent n \<or> n = v" for n
    using v by (auto simp: visited_def m)
  show same: "map_of ?p' n = map_of parent n" if "visited parent n" for n
    using that v by (auto simp: visited_def m)
  from inv have k: "keys parent = keys r" and s: "map_of parent source = Some (Some source)"
    and tree: "\<And>n p. map_of parent n = Some (Some p) \<Longrightarrow> n \<noteq> source
            \<Longrightarrow> visited parent p \<and> ent r p n \<and> 0 < get2 r p n"
    and chain: "\<And>n. visited parent n \<Longrightarrow> \<exists>es. pchain parent source n es"
    unfolding bfs_inv_def by blast+
  from v s have vs: "v \<noteq> source" by auto
  from v have "v \<in> keys parent" by (auto simp: keys_dom)
  then have 1: "keys ?p' = keys r" using k by (auto simp: keys_update)
  have 2: "map_of ?p' source = Some (Some source)" using s vs by (simp add: m)
  have 3: "visited ?p' p \<and> ent r p n \<and> 0 < get2 r p n"
    if "map_of ?p' n = Some (Some p)" "n \<noteq> source" for n p
  proof (cases "n = v")
    case True
    with that have "p = current" by (simp add: m)
    with True cur e c show ?thesis by (simp add: vis)
  next
    case False
    with that have "map_of parent n = Some (Some p)" by (simp add: m)
    from tree [OF this that(2)] show ?thesis by (simp add: vis)
  qed
  have 4: "\<exists>es. pchain ?p' source n es" if "visited ?p' n" for n
  proof (cases "n = v")
    case True
    from chain [OF cur] obtain es where "pchain parent source current es" ..
    then have "pchain ?p' source current es" using v by (rule pchain_update)
    with vs have "pchain ?p' source v ((current, v) # es)"
      by (intro pchain.pchain_step) (simp_all add: m)
    with True show ?thesis by blast
  next
    case False
    with that have "visited parent n" by (simp add: vis)
    from chain [OF this] obtain es where "pchain parent source n es" ..
    then have "pchain ?p' source n es" using v by (rule pchain_update)
    then show ?thesis ..
  qed
  show "bfs_inv r source ?p'"
    unfolding bfs_inv_def using 1 2 3 4 by blast
qed

lemma bfs_scan_inv:
  assumes "bfs_inv r source parent" "visited parent current"
    and "\<forall>(v, c) \<in> set adj. ent r current v \<and> get2 r current v = c \<and> v \<in> keys r"
  shows "\<exists>parent' queue'. bfs_scan sink current adj parent queue = Inr (parent', queue')
      \<and> bfs_inv r source parent'
      \<and> (\<forall>n. visited parent n \<longrightarrow> map_of parent' n = map_of parent n)
      \<and> (\<forall>n. visited parent' n \<longrightarrow> visited parent n \<or> n \<in> set queue')
      \<and> set queue \<subseteq> set queue'
      \<and> set queue' \<subseteq> set queue \<union> {n. visited parent' n}
      \<and> (visited parent' sink \<or> (\<forall>(v, c) \<in> set adj. 0 < c \<longrightarrow> visited parent' v))"
  using assms
proof (induction adj arbitrary: parent queue)
  case Nil
  show ?case by (simp add: Nil.prems(1))
next
  case (Cons e adj)
  obtain v c where e: "e = (v, c)" by (cases e)
  from Cons.prems(3) e have ev: "ent r current v" "get2 r current v = c" "v \<in> keys r"
    and rest: "\<forall>(v, c) \<in> set adj. ent r current v \<and> get2 r current v = c \<and> v \<in> keys r"
    by auto
  from Cons.prems(1) have "keys parent = keys r" by (simp add: bfs_inv_def)
  with ev(3) obtain x where x: "map_of parent v = Some x" using map_of_keys_Some by metis
  have mono: "visited parent n \<Longrightarrow> map_of parent n = Some (Some p) \<Longrightarrow> visited parent n" for n p .
  consider (skip) "\<not> 0 < c \<or> (\<exists>p. x = Some p)" | (new) "0 < c" "x = None" by (cases x) auto
  then show ?case
  proof cases
    case skip
    then have eq: "bfs_scan sink current (e # adj) parent queue
        = bfs_scan sink current adj parent queue"
      using x e by (auto split: option.splits)
    from Cons.IH [OF Cons.prems(1,2) rest, of queue]
    obtain parent' queue' where IH: "bfs_scan sink current adj parent queue = Inr (parent', queue')"
      "bfs_inv r source parent'"
      "\<forall>n. visited parent n \<longrightarrow> map_of parent' n = map_of parent n"
      "\<forall>n. visited parent' n \<longrightarrow> visited parent n \<or> n \<in> set queue'"
      "set queue \<subseteq> set queue'"
      "set queue' \<subseteq> set queue \<union> {n. visited parent' n}"
      "visited parent' sink \<or> (\<forall>(v, c) \<in> set adj. 0 < c \<longrightarrow> visited parent' v)"
      by blast
    have "0 < c \<Longrightarrow> visited parent' v"
    proof -
      assume "0 < c"
      with skip x have "visited parent v" by (auto simp: visited_def)
      with IH(3) show ?thesis by (auto simp: visited_def)
    qed
    with IH(7) have "visited parent' sink \<or> (\<forall>(v, c) \<in> set (e # adj). 0 < c \<longrightarrow> visited parent' v)"
      using e by auto
    with IH(1-6) eq show ?thesis by auto
  next
    case new
    let ?p1 = "AList.update v (Some current) parent"
    let ?q1 = "queue @ [v]"
    from new x have xv: "map_of parent v = Some None" by simp
    from ev(2) new(1) have pos: "0 < get2 r current v" by simp
    note upd = bfs_inv_update [OF Cons.prems(1,2) xv ev(1) pos]
    show ?thesis
    proof (cases "v = sink")
      case True
      then have eq: "bfs_scan sink current (e # adj) parent queue = Inr (?p1, ?q1)"
        using e new xv by simp
      have "visited ?p1 sink" using True upd(3) by simp
      with eq upd show ?thesis by auto
    next
      case False
      then have eq: "bfs_scan sink current (e # adj) parent queue
          = bfs_scan sink current adj ?p1 ?q1"
        using e new xv by simp
      have cur1: "visited ?p1 current" using upd(3) Cons.prems(2) by simp
      from Cons.IH [OF upd(1) cur1 rest, of ?q1]
      obtain parent' queue' where IH: "bfs_scan sink current adj ?p1 ?q1 = Inr (parent', queue')"
        "bfs_inv r source parent'"
        "\<forall>n. visited ?p1 n \<longrightarrow> map_of parent' n = map_of ?p1 n"
        "\<forall>n. visited parent' n \<longrightarrow> visited ?p1 n \<or> n \<in> set queue'"
        "set ?q1 \<subseteq> set queue'"
        "set queue' \<subseteq> set ?q1 \<union> {n. visited parent' n}"
        "visited parent' sink \<or> (\<forall>(v, c) \<in> set adj. 0 < c \<longrightarrow> visited parent' v)"
        by blast
      have a: "\<forall>n. visited parent n \<longrightarrow> map_of parent' n = map_of parent n"
        using IH(3) upd(2,3) by simp
      have b: "\<forall>n. visited parent' n \<longrightarrow> visited parent n \<or> n \<in> set queue'"
        using IH(4,5) upd(3) by auto
      have v1: "visited parent' v"
        using IH(3) upd(3) [of v] by (auto simp: visited_def)
      have c: "set queue' \<subseteq> set queue \<union> {n. visited parent' n}"
        using IH(6) v1 by auto
      have d: "visited parent' sink \<or> (\<forall>(v, c) \<in> set (e # adj). 0 < c \<longrightarrow> visited parent' v)"
        using IH(7) v1 e by auto
      from eq IH(1,2) a b c d IH(5) show ?thesis by auto
    qed
  qed
qed

declare bfs_loop.simps [simp del]

lemma res_ok_row:
  assumes "res_ok r" "map_of r u = Some adj" "(v, c) \<in> set adj"
  shows "ent r u v \<and> get2 r u v = c \<and> v \<in> keys r"
proof -
  from assms(2) have ro: "row_of r u = adj" by (simp add: row_of_def)
  from assms(1) have "wf_graph r" by (simp add: res_ok_def)
  then have "distinct (map fst adj)" using wf_graph_row [of r u] ro by simp
  with assms(3) have "map_of adj v = Some c" by simp
  then have g: "get2 r u v = c" by (simp add: get2_def ro)
  from assms(3) have e: "ent r u v" unfolding ent_def ro by (auto intro: rev_image_eqI)
  with assms(1) have "ent r v u" by (simp add: res_ok_def)
  then have "v \<in> keys r" by (rule ent_keys)
  with g e show ?thesis by simp
qed

lemma pos_in_row:
  assumes "map_of r u = Some adj" "0 < get2 r u v"
  shows "(v, get2 r u v) \<in> set adj"
proof -
  from assms(1) have ro: "row_of r u = adj" by (simp add: row_of_def)
  with assms(2) obtain c where "map_of adj v = Some c" "get2 r u v = c"
    by (cases "map_of adj v") (auto simp: get2_def)
  then show ?thesis by (auto dest: map_of_SomeD)
qed

lemma bfs_loop_inv:
  "res_ok r \<Longrightarrow> sink \<in> keys r \<Longrightarrow> bfs_inv r source parent \<Longrightarrow> \<forall>n \<in> set queue. visited parent n
    \<Longrightarrow> visited parent sink
        \<or> (\<forall>u v. visited parent u \<and> u \<notin> set queue \<and> 0 < get2 r u v \<longrightarrow> visited parent v)
    \<Longrightarrow> \<exists>parent'. bfs_loop r sink parent queue = Inr parent' \<and> bfs_inv r source parent'
        \<and> (\<forall>n. visited parent n \<longrightarrow> visited parent' n)
        \<and> (visited parent' sink
            \<or> (\<forall>u v. visited parent' u \<and> 0 < get2 r u v \<longrightarrow> visited parent' v))"
proof (induction r sink parent queue rule: bfs_loop.induct)
  case (1 residual sink parent queue)
  note ok = "1.prems"(1) and sk = "1.prems"(2)
  note inv = "1.prems"(3) and qv = "1.prems"(4) and cl = "1.prems"(5)
  show ?case
  proof (cases queue)
    case Nil
    then have "bfs_loop residual sink parent queue = Inr parent" by (simp add: bfs_loop.simps)
    with inv cl Nil show ?thesis by auto
  next
    case (Cons current rest)
    from inv have k: "keys parent = keys residual" by (simp add: bfs_inv_def)
    with sk obtain x where x: "map_of parent sink = Some x" using map_of_keys_Some by metis
    show ?thesis
    proof (cases x)
      case (Some p)
      then have "bfs_loop residual sink parent queue = Inr parent"
        using Cons x by (simp add: bfs_loop.simps)
      moreover have "visited parent sink" using x Some by (simp add: visited_def)
      ultimately show ?thesis using inv by auto
    next
      case None
      from qv Cons have cur: "visited parent current" by simp
      then have "current \<in> keys parent" by (auto simp: visited_def keys_dom)
      with k obtain adj where adj: "map_of residual current = Some adj"
        using map_of_keys_Some by metis
      have rows: "\<forall>(v, c) \<in> set adj. ent residual current v \<and> get2 residual current v = c
          \<and> v \<in> keys residual"
        using res_ok_row [OF ok adj] by auto
      from bfs_scan_inv [OF inv cur rows, of sink rest]
      obtain parent' queue' where sc: "bfs_scan sink current adj parent rest = Inr (parent', queue')"
        "bfs_inv residual source parent'"
        "\<forall>n. visited parent n \<longrightarrow> map_of parent' n = map_of parent n"
        "\<forall>n. visited parent' n \<longrightarrow> visited parent n \<or> n \<in> set queue'"
        "set rest \<subseteq> set queue'"
        "set queue' \<subseteq> set rest \<union> {n. visited parent' n}"
        "visited parent' sink \<or> (\<forall>(v, c) \<in> set adj. 0 < c \<longrightarrow> visited parent' v)"
        by blast
      have mono: "visited parent n \<Longrightarrow> visited parent' n" for n
        using sc(3) by (auto simp: visited_def)
      have qv': "\<forall>n \<in> set queue'. visited parent' n"
        using sc(6) qv Cons mono by auto
      have cl': "visited parent' sink
        \<or> (\<forall>u v. visited parent' u \<and> u \<notin> set queue' \<and> 0 < get2 residual u v \<longrightarrow> visited parent' v)"
      proof (cases "visited parent' sink")
        case True
        then show ?thesis ..
      next
        case False
        with mono have ns: "\<not> visited parent sink" by blast
        have "visited parent' v" if u: "visited parent' u" "u \<notin> set queue'" "0 < get2 residual u v"
          for u v
        proof (cases "u = current")
          case True
          with adj u(3) have "(v, get2 residual current v) \<in> set adj" using pos_in_row by metis
          with sc(7) False u(3) True show ?thesis by auto
        next
          case False
          from u(1,2) sc(4) have "visited parent u" by blast
          moreover from u(2) sc(5) False Cons have "u \<notin> set queue" by auto
          ultimately have "visited parent v" using cl ns u(3) by blast
          then show ?thesis by (rule mono)
        qed
        then show ?thesis by blast
      qed
      from "1.IH" [OF Cons x None adj sc(1) refl ok sk sc(2) qv' cl']
      obtain pf where pf: "bfs_loop residual sink parent' queue' = Inr pf"
        "bfs_inv residual source pf" "\<forall>n. visited parent' n \<longrightarrow> visited pf n"
        "visited pf sink \<or> (\<forall>u v. visited pf u \<and> 0 < get2 residual u v \<longrightarrow> visited pf v)"
        by blast
      have "bfs_loop residual sink parent queue = bfs_loop residual sink parent' queue'"
        using Cons x None adj sc(1) by (subst bfs_loop.simps) simp
      with pf mono show ?thesis by auto
    qed
  qed
qed

lemma map_of_init_parent:
  "map_of (init_parent r s) n
     = (if n = s then Some (Some s) else if n \<in> keys r then Some None else None)"
proof -
  have *: "map_of (map (\<lambda>(node, adj). (node, None)) r) n = (if n \<in> keys r then Some None else None)"
    by (induction r) (auto simp: keys_def)
  show ?thesis using * by (auto simp: init_parent_def update_conv' split: if_splits)
qed

lemma visited_init_parent: "visited (init_parent r s) n \<longleftrightarrow> n = s"
  by (simp add: visited_def map_of_init_parent)

lemma bfs_inv_init: "s \<in> keys r \<Longrightarrow> bfs_inv r s (init_parent r s)"
  unfolding bfs_inv_def
proof (intro conjI allI impI)
  assume s: "s \<in> keys r"
  show "keys (init_parent r s) = keys r"
    using s by (auto simp: keys_dom dom_def map_of_init_parent)
  show "map_of (init_parent r s) s = Some (Some s)" by (simp add: map_of_init_parent)
  show "\<exists>es. pchain (init_parent r s) s n es" if "visited (init_parent r s) n" for n
    using that pchain.pchain_source [of "init_parent r s" s] by (auto simp: visited_init_parent)
qed (auto simp: map_of_init_parent split: if_splits)

lemma bfs_loop_init:
  assumes "res_ok r" "source \<in> keys r" "sink \<in> keys r"
  shows "\<exists>parent. bfs_loop r sink (init_parent r source) [source] = Inr parent
      \<and> bfs_inv r source parent
      \<and> (visited parent sink \<or> (\<forall>u v. visited parent u \<and> 0 < get2 r u v \<longrightarrow> visited parent v))"
proof -
  have "\<exists>parent'. bfs_loop r sink (init_parent r source) [source] = Inr parent'
      \<and> bfs_inv r source parent'
      \<and> (\<forall>n. visited (init_parent r source) n \<longrightarrow> visited parent' n)
      \<and> (visited parent' sink \<or> (\<forall>u v. visited parent' u \<and> 0 < get2 r u v \<longrightarrow> visited parent' v))"
    by (rule bfs_loop_inv [OF assms(1,3) bfs_inv_init [OF assms(2)]])
       (auto simp: visited_init_parent)
  then show ?thesis by blast
qed

lemma pchain_Nil_iff: "pchain parent s n es \<Longrightarrow> es = [] \<longleftrightarrow> n = s"
  by (induction rule: pchain.induct) auto

lemma pchain_det: "pchain parent s n es \<Longrightarrow> pchain parent s n es' \<Longrightarrow> es = es'"
proof (induction arbitrary: es' rule: pchain.induct)
  case pchain_source
  then show ?case using pchain_Nil_iff by fastforce
next
  case (pchain_step n p es)
  from pchain_step.prems pchain_step(1,2) obtain es1 where
    "es' = (p, n) # es1" "pchain parent s p es1"
    by (cases rule: pchain.cases) auto
  with pchain_step.IH show ?case by simp
qed

lemma pchain_snd: "pchain parent s n es \<Longrightarrow> (a, b) \<in> set es \<Longrightarrow> b \<noteq> s \<and> map_of parent b = Some (Some a)"
  by (induction rule: pchain.induct) auto

lemma pchain_suffix:
  "pchain parent s n es \<Longrightarrow> (a, b) \<in> set es
   \<Longrightarrow> \<exists>es1 es2. es = es1 @ (a, b) # es2 \<and> pchain parent s b ((a, b) # es2)"
proof (induction rule: pchain.induct)
  case pchain_source
  then show ?case by simp
next
  case (pchain_step n p es)
  show ?case
  proof (cases "(a, b) = (p, n)")
    case True
    have "pchain parent s n ((p, n) # es)"
      using pchain_step(1,2,3) by (rule pchain.pchain_step)
    with True show ?thesis by (intro exI [of _ "[]"] exI [of _ es]) simp
  next
    case False
    with pchain_step.prems have "(a, b) \<in> set es" by auto
    from pchain_step.IH [OF this] obtain es1 es2 where
      "es = es1 @ (a, b) # es2" "pchain parent s b ((a, b) # es2)" by blast
    then show ?thesis by (intro exI [of _ "(p, n) # es1"] exI [of _ es2]) simp
  qed
qed

lemma pchain_distinct: "pchain parent s n es \<Longrightarrow> distinct (map snd es)"
proof (induction rule: pchain.induct)
  case pchain_source
  show ?case by simp
next
  case (pchain_step n p es)
  have "n \<notin> snd ` set es"
  proof
    assume "n \<in> snd ` set es"
    then obtain a where "(a, n) \<in> set es" by auto
    from pchain_suffix [OF pchain_step(3) this] obtain es1 es2 where
      es: "es = es1 @ (a, n) # es2" and ch: "pchain parent s n ((a, n) # es2)" by blast
    have "pchain parent s n ((p, n) # es)"
      using pchain_step(1,2,3) by (rule pchain.pchain_step)
    from pchain_det [OF this ch] es show False by simp
  qed
  with pchain_step.IH show ?case by simp
qed

lemma pchain_distinct_edges: "pchain parent s n es \<Longrightarrow> distinct es"
  by (drule pchain_distinct) (simp add: distinct_map)

lemma pchain_degree:
  "pchain parent s n es \<Longrightarrow>
     int (length (filter (\<lambda>e. fst e = u) es)) - int (length (filter (\<lambda>e. snd e = u) es))
       = (if u = s then 1 else 0) - (if u = n then 1 else 0)"
  by (induction rule: pchain.induct) auto

lemma pchain_tree:
  assumes "bfs_inv r s parent" "pchain parent s n es" "(a, b) \<in> set es"
  shows "ent r a b \<and> 0 < get2 r a b"
proof -
  from pchain_snd [OF assms(2,3)] have "b \<noteq> s" "map_of parent b = Some (Some a)" by auto
  with assms(1) show ?thesis unfolding bfs_inv_def by blast
qed

lemma ent_lookup:
  assumes "ent r a b"
  shows "\<exists>row. map_of r a = Some row \<and> map_of row b = Some (get2 r a b)"
proof -
  from assms obtain row where row: "map_of r a = Some row"
    unfolding ent_def row_of_def by (cases "map_of r a") auto
  then have ro: "row_of r a = row" by (simp add: row_of_def)
  with assms have "b \<in> fst ` set row" by (simp add: ent_def)
  then obtain x where x: "map_of row b = Some x"
    by (cases "map_of row b") (auto simp: map_of_eq_None_iff)
  then have "get2 r a b = x" using ro by (simp add: get2_def)
  with row x show ?thesis by simp
qed

lemma find_path_flow_pchain:
  assumes "pchain parent s n es" "\<forall>(a, b) \<in> set es. ent r a b"
  shows "find_path_flow r parent s n pf = Some (Inr (path_min r es pf))"
  using assms
proof (induction arbitrary: pf rule: pchain.induct)
  case pchain_source
  show ?case by (simp add: find_path_flow.simps path_min_def)
next
  case (pchain_step n p es)
  from pchain_step.prems have "ent r p n" by simp
  from ent_lookup [OF this] obtain row where
    row: "map_of r p = Some row" "map_of row n = Some (get2 r p n)" by blast
  from pchain_step.prems have "\<forall>(a, b) \<in> set es. ent r a b" by simp
  from pchain_step.IH [OF this]
  have IH: "find_path_flow r parent s p (pymin pf (get2 r p n))
      = Some (Inr (path_min r es (pymin pf (get2 r p n))))" .
  show ?case
    by (subst find_path_flow.simps) (simp add: pchain_step(1,2) row IH path_min_def)
qed

lemma path_min_Fin:
  "\<exists>d. path_min r es (Fin x) = Fin d \<and> d \<le> x \<and> (\<forall>(a, b) \<in> set es. d \<le> get2 r a b)
      \<and> (d = x \<or> (\<exists>(a, b) \<in> set es. d = get2 r a b))"
proof (induction es arbitrary: x)
  case Nil
  show ?case by (simp add: path_min_def)
next
  case (Cons e es)
  obtain a b where e: "e = (a, b)" by (cases e)
  have eq: "path_min r (e # es) (Fin x) = path_min r es (Fin (min x (get2 r a b)))"
    by (simp add: path_min_def e)
  from Cons.IH [of "min x (get2 r a b)"] obtain d where
    d: "path_min r es (Fin (min x (get2 r a b))) = Fin d" "d \<le> min x (get2 r a b)"
       "\<forall>(a, b) \<in> set es. d \<le> get2 r a b"
       "d = min x (get2 r a b) \<or> (\<exists>(a, b) \<in> set es. d = get2 r a b)" by blast
  have 1: "\<forall>(a, b) \<in> set (e # es). d \<le> get2 r a b" using d(2,3) e by auto
  have 2: "d = x \<or> (\<exists>(a, b) \<in> set (e # es). d = get2 r a b)"
    using d(4) e by (auto simp: min_def split: if_splits)
  from eq d(1,2) 1 2 show ?case by auto
qed

lemma path_min_PInf:
  assumes "es \<noteq> []"
  shows "\<exists>d. path_min r es PInf = Fin d \<and> (\<forall>(a, b) \<in> set es. d \<le> get2 r a b)
      \<and> (\<exists>(a, b) \<in> set es. d = get2 r a b)"
proof -
  from assms obtain a b es' where es: "es = (a, b) # es'" by (cases es) auto
  have eq: "path_min r es PInf = path_min r es' (Fin (get2 r a b))"
    by (simp add: path_min_def es)
  from path_min_Fin [of r es' "get2 r a b"] obtain d where
    d: "path_min r es' (Fin (get2 r a b)) = Fin d" "d \<le> get2 r a b"
       "\<forall>(a, b) \<in> set es'. d \<le> get2 r a b"
       "d = get2 r a b \<or> (\<exists>(a, b) \<in> set es'. d = get2 r a b)" by blast
  have 1: "\<forall>(a, b) \<in> set es. d \<le> get2 r a b" using d(2,3) es by auto
  have 2: "\<exists>(a, b) \<in> set es. d = get2 r a b" using d(4) es by auto
  from eq d(1) 1 2 show ?thesis by auto
qed

lemma wf_graph_flow_add: "wf_graph flow \<Longrightarrow> wf_graph (flow_add u v d flow)"
  unfolding flow_add_def
  by (intro wf_graph_update distinct_update wf_graph_row)

lemma upd2:
  fixes F F1 F2 :: "'e \<Rightarrow> int" and d :: int
  assumes g1: "\<And>e. F1 e = (if e = x then F x + d else F e)"
  assumes g2: "\<And>e. F2 e = (if e = y then F1 y + d' else F1 e)"
  shows "F2 e = F e + d * (if e = x then 1 else 0) + d' * (if e = y then 1 else 0)"
  unfolding g2 g1 by simp

lemma apply_path_pchain:
  assumes "pchain parent s n es" "\<forall>(a, b) \<in> set es. ent r a b \<and> ent r b a"
  shows "\<exists>flow' r'. apply_path parent s n d flow r = Some (Inr (flow', r'))
      \<and> shape r' = shape r
      \<and> (\<forall>a b. get2 r' a b = get2 r a b - d * int (count_list es (a, b))
                                + d * int (count_list es (b, a)))
      \<and> (\<forall>a b. get2 flow' a b = get2 flow a b + d * int (count_list es (a, b))
                                - d * int (count_list es (b, a)))
      \<and> (wf_graph flow \<longrightarrow> wf_graph flow')"
  using assms
proof (induction arbitrary: flow r rule: pchain.induct)
  case pchain_source
  show ?case by (subst apply_path.simps) simp
next
  case (pchain_step n p es)
  let ?f2 = "flow_add n p (- d) (flow_add p n d flow)"
  from pchain_step.prems have e1: "ent r p n" and e2: "ent r n p" by auto
  from residual_add_ok [OF e1, of "- d"] obtain r1 where
    r1: "residual_add p n (- d) r = Inr r1" "shape r1 = shape r"
        "\<forall>a b. get2 r1 a b = (if a = p \<and> b = n then get2 r p n + - d else get2 r a b)"
    by blast
  from e2 r1(2) have "ent r1 n p" using ent_shape by metis
  from residual_add_ok [OF this, of d] obtain r2 where
    r2: "residual_add n p d r1 = Inr r2" "shape r2 = shape r1"
        "\<forall>a b. get2 r2 a b = (if a = n \<and> b = p then get2 r1 n p + d else get2 r1 a b)"
    by blast
  have sh: "shape r2 = shape r" using r1(2) r2(2) by simp
  then have "\<forall>(a, b) \<in> set es. ent r2 a b \<and> ent r2 b a"
    using pchain_step.prems ent_shape [OF sh] by auto
  from pchain_step.IH [OF this, of ?f2] obtain flow' r' where
    IH: "apply_path parent s p d ?f2 r2 = Some (Inr (flow', r'))" "shape r' = shape r2"
      "\<forall>a b. get2 r' a b = get2 r2 a b - d * int (count_list es (a, b))
                                + d * int (count_list es (b, a))"
      "\<forall>a b. get2 flow' a b = get2 ?f2 a b + d * int (count_list es (a, b))
                                - d * int (count_list es (b, a))"
      "wf_graph ?f2 \<longrightarrow> wf_graph flow'"
    by blast
  have wf: "wf_graph flow \<longrightarrow> wf_graph flow'"
  proof
    assume "wf_graph flow"
    then have "wf_graph (flow_add p n d flow)" by (rule wf_graph_flow_add)
    then have "wf_graph ?f2" by (rule wf_graph_flow_add)
    with IH(5) show "wf_graph flow'" by simp
  qed
  have eq: "apply_path parent s n d flow r = Some (Inr (flow', r'))"
    by (subst apply_path.simps) (simp add: pchain_step(1,2) r1(1) r2(1) IH(1) Let_def)
  have gr: "get2 r' a b = get2 r a b - d * int (count_list ((p, n) # es) (a, b))
                                + d * int (count_list ((p, n) # es) (b, a))" for a b
  proof -
    define k1 :: int where "k1 = (if (a, b) = (p, n) then 1 else 0)"
    define k2 :: int where "k2 = (if (a, b) = (n, p) then 1 else 0)"
    define c1 where "c1 = int (count_list es (a, b))"
    define c2 where "c2 = int (count_list es (b, a))"
    have g1: "get2 r1 (fst e) (snd e)
        = (if e = (p, n) then get2 r (fst (p, n)) (snd (p, n)) + - d else get2 r (fst e) (snd e))"
      for e using r1(3) by (cases e) simp
    have g2: "get2 r2 (fst e) (snd e)
        = (if e = (n, p) then get2 r1 (fst (n, p)) (snd (n, p)) + d else get2 r1 (fst e) (snd e))"
      for e using r2(3) by (cases e) simp
    have "get2 r2 (fst (a, b)) (snd (a, b)) = get2 r (fst (a, b)) (snd (a, b))
        + (- d) * (if (a, b) = (p, n) then 1 else 0) + d * (if (a, b) = (n, p) then 1 else 0)"
      using g1 g2 by (rule upd2)
    then have "get2 r2 a b = get2 r a b - d * k1 + d * k2"
      by (simp add: k1_def k2_def)
    moreover have "get2 r' a b = get2 r2 a b - d * c1 + d * c2"
      using IH(3) by (simp add: c1_def c2_def)
    ultimately have "get2 r' a b = get2 r a b - d * (c1 + k1) + d * (c2 + k2)"
      by (simp add: algebra_simps)
    moreover have "int (count_list ((p, n) # es) (a, b)) = c1 + k1"
      by (simp add: c1_def k1_def)
    moreover have "int (count_list ((p, n) # es) (b, a)) = c2 + k2"
      by (auto simp: c2_def k2_def)
    ultimately show ?thesis by simp
  qed
  have gf: "get2 flow' a b = get2 flow a b + d * int (count_list ((p, n) # es) (a, b))
                                - d * int (count_list ((p, n) # es) (b, a))" for a b
  proof -
    define k1 :: int where "k1 = (if (a, b) = (p, n) then 1 else 0)"
    define k2 :: int where "k2 = (if (a, b) = (n, p) then 1 else 0)"
    define c1 where "c1 = int (count_list es (a, b))"
    define c2 where "c2 = int (count_list es (b, a))"
    let ?f1 = "flow_add p n d flow"
    have g1: "get2 ?f1 (fst e) (snd e)
        = (if e = (p, n) then get2 flow (fst (p, n)) (snd (p, n)) + d else get2 flow (fst e) (snd e))"
      for e by (cases e) (simp add: get2_flow_add)
    have g2: "get2 ?f2 (fst e) (snd e)
        = (if e = (n, p) then get2 ?f1 (fst (n, p)) (snd (n, p)) + - d else get2 ?f1 (fst e) (snd e))"
      for e by (cases e) (simp add: get2_flow_add)
    have "get2 ?f2 (fst (a, b)) (snd (a, b)) = get2 flow (fst (a, b)) (snd (a, b))
        + d * (if (a, b) = (p, n) then 1 else 0) + (- d) * (if (a, b) = (n, p) then 1 else 0)"
      using g1 g2 by (rule upd2)
    then have "get2 ?f2 a b = get2 flow a b + d * k1 - d * k2"
      by (simp add: k1_def k2_def)
    moreover have "get2 flow' a b = get2 ?f2 a b + d * c1 - d * c2"
      using IH(4) by (simp add: c1_def c2_def)
    ultimately have "get2 flow' a b = get2 flow a b + d * (c1 + k1) - d * (c2 + k2)"
      by (simp add: algebra_simps)
    moreover have "int (count_list ((p, n) # es) (a, b)) = c1 + k1"
      by (simp add: c1_def k1_def)
    moreover have "int (count_list ((p, n) # es) (b, a)) = c2 + k2"
      by (auto simp: c2_def k2_def)
    ultimately show ?thesis by simp
  qed
  have sh': "shape r' = shape r" using IH(2) sh by simp
  show ?case
    by (intro exI [of _ flow'] exI [of _ r'] conjI allI) (rule eq sh' gr gf wf)+
qed

lemma sum_count_fst:
  assumes "finite N" "snd ` set es \<subseteq> N"
  shows "(\<Sum>v \<in> N. int (count_list es (u, v))) = int (length (filter (\<lambda>e. fst e = u) es))"
  using assms(2)
proof (induction es)
  case Nil
  show ?case by simp
next
  case (Cons e es)
  obtain a b where e: "e = (a, b)" by (cases e)
  from Cons.prems e have b: "b \<in> N" and rest: "snd ` set es \<subseteq> N" by auto
  have "(\<Sum>v \<in> N. int (count_list (e # es) (u, v)))
      = (\<Sum>v \<in> N. int (count_list es (u, v)) + (if b = v then (if a = u then 1 else 0) else 0))"
    by (intro sum.cong) (auto simp: e)
  also have "\<dots> = (\<Sum>v \<in> N. int (count_list es (u, v)))
      + (\<Sum>v \<in> N. (if b = v then (if a = u then 1 else 0) else 0))"
    by (rule sum.distrib)
  also have "(\<Sum>v \<in> N. (if b = v then (if a = u then 1 else 0) else 0)) = (if a = u then 1 else (0::int))"
    using assms(1) b by (simp add: sum.delta')
  finally show ?case using Cons.IH [OF rest] by (simp add: e)
qed

lemma sum_count_snd:
  assumes "finite N" "fst ` set es \<subseteq> N"
  shows "(\<Sum>v \<in> N. int (count_list es (v, u))) = int (length (filter (\<lambda>e. snd e = u) es))"
  using assms(2)
proof (induction es)
  case Nil
  show ?case by simp
next
  case (Cons e es)
  obtain a b where e: "e = (a, b)" by (cases e)
  from Cons.prems e have a: "a \<in> N" and rest: "fst ` set es \<subseteq> N" by auto
  have "(\<Sum>v \<in> N. int (count_list (e # es) (v, u)))
      = (\<Sum>v \<in> N. int (count_list es (v, u)) + (if a = v then (if b = u then 1 else 0) else 0))"
    by (intro sum.cong) (auto simp: e)
  also have "\<dots> = (\<Sum>v \<in> N. int (count_list es (v, u)))
      + (\<Sum>v \<in> N. (if a = v then (if b = u then 1 else 0) else 0))"
    by (rule sum.distrib)
  also have "(\<Sum>v \<in> N. (if a = v then (if b = u then 1 else 0) else 0)) = (if b = u then 1 else (0::int))"
    using assms(1) a by (simp add: sum.delta')
  finally show ?case using Cons.IH [OF rest] by (simp add: e)
qed

lemma sum_augment:
  fixes F :: "'a \<Rightarrow> 'a \<Rightarrow> int"
  assumes fin: "finite N" and ch: "pchain parent s n es"
    and sub: "fst ` set es \<subseteq> N" "snd ` set es \<subseteq> N"
  shows "(\<Sum>v \<in> N. F u v + d * int (count_list es (u, v)) - d * int (count_list es (v, u)))
      = (\<Sum>v \<in> N. F u v) + d * ((if u = s then 1 else 0) - (if u = n then 1 else 0))"
proof -
  have "(\<Sum>v \<in> N. F u v + d * int (count_list es (u, v)) - d * int (count_list es (v, u)))
      = (\<Sum>v \<in> N. F u v) + d * (\<Sum>v \<in> N. int (count_list es (u, v)))
          - d * (\<Sum>v \<in> N. int (count_list es (v, u)))"
    by (simp add: sum.distrib sum_subtractf sum_distrib_left)
  also have "\<dots> = (\<Sum>v \<in> N. F u v)
      + d * (int (length (filter (\<lambda>e. fst e = u) es)) - int (length (filter (\<lambda>e. snd e = u) es)))"
    unfolding sum_count_fst [OF fin sub(2)] sum_count_snd [OF fin sub(1)]
    by (simp add: algebra_simps)
  finally show ?thesis unfolding pchain_degree [OF ch] .
qed

lemma distinct_count_le_1: "distinct xs \<Longrightarrow> count_list xs x \<le> 1"
  by (induction xs) auto

lemma ek_step:
  assumes inv: "ek_inv g s t flow r mf" and ok: "res_ok r" and st: "s \<noteq> t"
    and N: "keys r = set (nodes g)"
    and b: "bfs_inv r s parent" and vt: "visited parent t"
  shows "\<exists>d flow' r'. 0 < d \<and> find_path_flow r parent s t PInf = Some (Inr (Fin d))
       \<and> apply_path parent s t d flow r = Some (Inr (flow', r'))
       \<and> ek_inv g s t flow' r' (pyadd mf (Fin d))
       \<and> src_measure (set (nodes g)) r' s < src_measure (set (nodes g)) r s
       \<and> ((\<forall>a b. 0 \<le> get2 r a b) \<longrightarrow> (\<forall>a b. 0 \<le> get2 r' a b))"
proof -
  let ?N = "set (nodes g)"
  from b vt obtain es where ch: "pchain parent s t es" unfolding bfs_inv_def by blast
  from pchain_Nil_iff [OF ch] st have ne: "es \<noteq> []" by auto
  have tree: "ent r a b \<and> 0 < get2 r a b" if "(a, b) \<in> set es" for a b
    using pchain_tree [OF b ch that] .
  have sym: "ent r b a" if "(a, b) \<in> set es" for a b
    using tree [OF that] ok unfolding res_ok_def by blast
  have inN: "a \<in> ?N \<and> b \<in> ?N" if "(a, b) \<in> set es" for a b
    using tree [OF that] sym [OF that] ent_keys N by metis
  have sub: "fst ` set es \<subseteq> ?N" "snd ` set es \<subseteq> ?N" using inN by auto
  have e1: "\<forall>(a, b) \<in> set es. ent r a b" using tree by auto
  have e2: "\<forall>(a, b) \<in> set es. ent r a b \<and> ent r b a" using tree sym by auto
  from path_min_PInf [OF ne, of r] obtain d where
    d: "path_min r es PInf = Fin d" "\<forall>(a, b) \<in> set es. d \<le> get2 r a b"
       "\<exists>(a, b) \<in> set es. d = get2 r a b" by blast
  from d(3) tree have dpos: "0 < d" by auto
  have fp: "find_path_flow r parent s t PInf = Some (Inr (Fin d))"
    using find_path_flow_pchain [OF ch e1, of PInf] d(1) by simp
  from apply_path_pchain [OF ch e2, of d flow] obtain flow' r' where
    ap: "apply_path parent s t d flow r = Some (Inr (flow', r'))" "shape r' = shape r"
    and gr: "\<And>a b. get2 r' a b = get2 r a b - d * int (count_list es (a, b))
                                + d * int (count_list es (b, a))"
    and gf: "\<And>a b. get2 flow' a b = get2 flow a b + d * int (count_list es (a, b))
                                - d * int (count_list es (b, a))"
    and wf': "wf_graph flow \<longrightarrow> wf_graph flow'"
    by blast
  from inv have sh: "shape r = shape (init_residual g)"
    and rel: "\<And>a b. get2 r a b = get2 g a b - get2 flow a b"
    and anti: "\<And>a b. get2 flow a b = - get2 flow b a"
    and cons: "\<And>u. u \<noteq> s \<Longrightarrow> u \<noteq> t \<Longrightarrow> (\<Sum>v \<in> ?N. get2 flow u v) = 0"
    and val: "mf = Fin (\<Sum>v \<in> ?N. get2 flow s v)"
    and wf: "wf_graph flow"
    and supp: "\<And>a b. get2 flow a b \<noteq> 0 \<Longrightarrow> a \<in> ?N \<and> b \<in> ?N"
    unfolding ek_inv_def by blast+
  have sumf: "(\<Sum>v \<in> ?N. get2 flow' u v)
      = (\<Sum>v \<in> ?N. get2 flow u v) + d * ((if u = s then 1 else 0) - (if u = t then 1 else 0))"
    for u unfolding gf by (rule sum_augment [OF _ ch sub]) simp
  have i1: "shape r' = shape (init_residual g)" using ap(2) sh by simp
  have i2: "get2 r' a b = get2 g a b - get2 flow' a b" for a b
    unfolding gr gf rel by simp
  have i3: "get2 flow' a b = - get2 flow' b a" for a b
    unfolding gf using anti [of a b] by simp
  have i4: "(\<Sum>v \<in> ?N. get2 flow' u v) = 0" if "u \<noteq> s" "u \<noteq> t" for u
    unfolding sumf using that cons [OF that] by simp
  have i5: "pyadd mf (Fin d) = Fin (\<Sum>v \<in> ?N. get2 flow' s v)"
    unfolding sumf val using st by simp
  have i6: "wf_graph flow'" using wf wf' by simp
  have i7: "a \<in> ?N \<and> b \<in> ?N" if nz: "get2 flow' a b \<noteq> 0" for a b
  proof (cases "(a, b) \<in> set es \<or> (b, a) \<in> set es")
    case True
    then show ?thesis using inN by blast
  next
    case False
    then have "get2 flow' a b = get2 flow a b" unfolding gf by (simp add: count_list_0_iff)
    with nz supp show ?thesis by simp
  qed
  have inv': "ek_inv g s t flow' r' (pyadd mf (Fin d))"
    unfolding ek_inv_def using i1 i2 i3 i4 i5 i6 i7 by blast
  have nin: "count_list es (v, s) = 0" for v
    using pchain_snd [OF ch, of v s] by (auto simp: count_list_0_iff)
  have grs: "get2 r' s v = get2 r s v - d * int (count_list es (s, v))" for v
    unfolding gr nin by simp
  have le: "nat (get2 r' s v) \<le> nat (get2 r s v)" for v
    unfolding grs using dpos by (simp add: nat_mono)
  have "(\<Sum>v \<in> ?N. int (count_list es (s, v))) = 1"
  proof -
    have "(\<Sum>v \<in> ?N. int (count_list es (s, v))) = int (length (filter (\<lambda>e. fst e = s) es))"
      by (rule sum_count_fst [OF _ sub(2)]) simp
    moreover have "filter (\<lambda>e. snd e = s) es = []"
      using pchain_snd [OF ch] by (fastforce simp: filter_empty_conv)
    ultimately show ?thesis using pchain_degree [OF ch, of s] st by simp
  qed
  then obtain v0 where v0: "v0 \<in> ?N" "count_list es (s, v0) \<noteq> 0"
    by (metis (no_types, lifting) of_nat_0 sum.neutral zero_neq_one)
  then have mem: "(s, v0) \<in> set es" by (simp add: count_list_0_iff)
  from tree [OF mem] have p0: "0 < get2 r s v0" by simp
  have "d * int (count_list es (s, v0)) \<ge> d"
    using v0(2) dpos by (cases "count_list es (s, v0)") (auto simp: algebra_simps)
  then have lt: "nat (get2 r' s v0) < nat (get2 r s v0)"
    unfolding grs using p0 dpos by linarith
  have meas: "src_measure ?N r' s < src_measure ?N r s"
    unfolding src_measure_def
    by (rule sum_strict_mono_ex1) (use le lt v0(1) in auto)
  have nn: "\<forall>a b. 0 \<le> get2 r' a b" if nn0: "\<forall>a b. 0 \<le> get2 r a b"
  proof (intro allI)
    fix a b
    have c1: "count_list es (a, b) \<le> 1"
      using pchain_distinct_edges [OF ch] by (rule distinct_count_le_1)
    show "0 \<le> get2 r' a b"
    proof (cases "(a, b) \<in> set es")
      case True
      with d(2) have "d \<le> get2 r a b" by auto
      moreover from c1 have "d * int (count_list es (a, b)) \<le> d"
        using dpos by (cases "count_list es (a, b)") auto
      moreover have "0 \<le> d * int (count_list es (b, a))" using dpos by simp
      ultimately show ?thesis unfolding gr by linarith
    next
      case False
      then have "count_list es (a, b) = 0" by (simp add: count_list_0_iff)
      moreover have "0 \<le> d * int (count_list es (b, a))" using dpos by simp
      ultimately show ?thesis unfolding gr using nn0 [rule_format, of a b] by simp
    qed
  qed
  from dpos fp ap(1) inv' meas nn show ?thesis by blast
qed

lemma ek_inv_res_ok:
  assumes "res_ok (init_residual g)" "ek_inv g s t flow r mf"
  shows "res_ok r" "keys r = set (nodes g)"
proof -
  from assms(2) have sh: "shape r = shape (init_residual g)" by (simp add: ek_inv_def)
  with assms(1) show "res_ok r" using res_ok_shape by blast
  from sh show "keys r = set (nodes g)"
    using keys_shape init_residual_props(1) by metis
qed

lemma map_of_init_parent_source: "map_of (init_parent r s) s = Some (Some s)"
  unfolding init_parent_def by (simp add: update_conv')

lemma bfs_loop_same: "bfs_loop r s (init_parent r s) [s] = Inr (init_parent r s)"
  by (subst bfs_loop.simps) (simp add: map_of_init_parent_source)

lemma find_path_flow_same: "find_path_flow r p s s pf = Some (Inr pf)"
  by (subst find_path_flow.simps) simp

lemma ek_loop_same_aux: "ek_loop s t flow r mf = Some y \<Longrightarrow> s \<noteq> t"
proof (rule ek_loop.raw_induct [where P = "\<lambda>s t flow r mf y. s \<noteq> t"], goal_cases)
  case (1 f s t flow r mf y)
  show ?case
  proof
    assume "s = t"
    with 1(3) have "f t t flow r (pyadd mf PInf) = Some y"
      by (simp add: bfs_loop_same map_of_init_parent_source find_path_flow_same)
    from 1(2) [OF this] show False by simp
  qed
qed

lemma ek_loop_same: "ek_loop s s flow r mf = None"
  using ek_loop_same_aux [of s s flow r mf] by (cases "ek_loop s s flow r mf") auto

lemma ek_loop_stop:
  assumes "bfs_loop r t (init_parent r s) [s] = Inr parent" "map_of parent t = Some None"
  shows "ek_loop s t flow r mf = Some (Inr (mf, flow))"
  by (subst ek_loop.simps) (simp only: assms sum.case option.case)

lemma ek_loop_step:
  assumes "bfs_loop r t (init_parent r s) [s] = Inr parent" "map_of parent t = Some (Some p)"
    and "find_path_flow r parent s t PInf = Some (Inr (Fin d))"
    and "apply_path parent s t d flow r = Some (Inr (flow', r'))"
  shows "ek_loop s t flow r mf = ek_loop s t flow' r' (pyadd mf (Fin d))"
  by (subst ek_loop.simps) (simp only: assms sum.case option.case pynum.case prod.case)

lemma get2_Nil: "get2 [] a b = 0"
  by (simp add: get2_def row_of_def)

lemma ek_loop_total:
  assumes ok0: "res_ok (init_residual g)" and sN: "s \<in> set (nodes g)" and tN: "t \<in> set (nodes g)"
    and st: "s \<noteq> t"
  shows "ek_inv g s t flow r mf \<Longrightarrow>
    \<exists>k fl r' parent. ek_loop s t flow r mf = Some (Inr (Fin k, fl))
      \<and> ek_inv g s t fl r' (Fin k) \<and> bfs_inv r' s parent \<and> \<not> visited parent t
      \<and> (\<forall>u v. visited parent u \<and> 0 < get2 r' u v \<longrightarrow> visited parent v)
      \<and> ((\<forall>a b. 0 \<le> get2 r a b) \<longrightarrow> (\<forall>a b. 0 \<le> get2 r' a b))"
proof (induction "src_measure (set (nodes g)) r s" arbitrary: flow r mf rule: less_induct)
  case less
  note inv = less.prems
  note ok = ek_inv_res_ok [OF ok0 inv]
  from sN tN ok(2) have sk: "s \<in> keys r" and tk: "t \<in> keys r" by simp_all
  from bfs_loop_init [OF ok(1) sk tk] obtain parent where
    bl: "bfs_loop r t (init_parent r s) [s] = Inr parent" and bi: "bfs_inv r s parent"
    and cl: "visited parent t \<or> (\<forall>u v. visited parent u \<and> 0 < get2 r u v \<longrightarrow> visited parent v)"
    by blast
  from bi have "keys parent = keys r" by (simp add: bfs_inv_def)
  with tk obtain x where x: "map_of parent t = Some x" using map_of_keys_Some by metis
  show ?case
  proof (cases x)
    case None
    then have nv: "\<not> visited parent t" using x by (simp add: visited_def)
    from inv obtain k where k: "mf = Fin k" unfolding ek_inv_def by blast
    from x None have xn: "map_of parent t = Some None" by simp
    have "ek_loop s t flow r mf = Some (Inr (mf, flow))"
      by (rule ek_loop_stop [OF bl xn])
    with k inv bi nv cl show ?thesis by blast
  next
    case (Some p)
    then have vt: "visited parent t" using x by (simp add: visited_def)
    from ek_step [OF inv ok(1) st ok(2) bi vt] obtain d flow' r' where
      d: "0 < d" "find_path_flow r parent s t PInf = Some (Inr (Fin d))"
         "apply_path parent s t d flow r = Some (Inr (flow', r'))"
         "ek_inv g s t flow' r' (pyadd mf (Fin d))"
         "src_measure (set (nodes g)) r' s < src_measure (set (nodes g)) r s"
         "(\<forall>a b. 0 \<le> get2 r a b) \<longrightarrow> (\<forall>a b. 0 \<le> get2 r' a b)"
      by blast
    from x Some have xs: "map_of parent t = Some (Some p)" by simp
    have eq: "ek_loop s t flow r mf = ek_loop s t flow' r' (pyadd mf (Fin d))"
      by (rule ek_loop_step [OF bl xs d(2,3)])
    from less.hyps [OF d(5) d(4)] obtain k fl r'' parent' where
      "ek_loop s t flow' r' (pyadd mf (Fin d)) = Some (Inr (Fin k, fl))"
      "ek_inv g s t fl r'' (Fin k)" "bfs_inv r'' s parent'" "\<not> visited parent' t"
      "\<forall>u v. visited parent' u \<and> 0 < get2 r'' u v \<longrightarrow> visited parent' v"
      "(\<forall>a b. 0 \<le> get2 r' a b) \<longrightarrow> (\<forall>a b. 0 \<le> get2 r'' a b)"
      by blast
    with eq d(6) show ?thesis by (intro exI [of _ k] exI [of _ fl] exI [of _ r''] exI [of _ parent']) simp
  qed
qed

lemma ek_inv_init: "ek_inv g s t [] (init_residual g) (Fin 0)"
  unfolding ek_inv_def by (simp add: init_residual_props(2) get2_Nil wf_graph_def)

lemma edmonds_karp_total:
  assumes "wf_graph g" "s \<in> set (nodes g)" "t \<in> set (nodes g)" "s \<noteq> t"
  shows "\<exists>k fl r' parent. edmonds_karp g s t = Some (Inr (Fin k, fl))
      \<and> ek_inv g s t fl r' (Fin k) \<and> bfs_inv r' s parent \<and> \<not> visited parent t
      \<and> (\<forall>u v. visited parent u \<and> 0 < get2 r' u v \<longrightarrow> visited parent v)
      \<and> ((\<forall>a b. 0 \<le> get2 g a b) \<longrightarrow> (\<forall>a b. 0 \<le> get2 r' a b))"
  unfolding edmonds_karp_def
  using ek_loop_total [OF init_residual_props(3) [OF assms(1)] assms(2,3,4) ek_inv_init]
  by (simp add: init_residual_props(2))

lemma nonneg_graph_get2: "nonneg_graph g \<Longrightarrow> 0 \<le> get2 g a b"
proof -
  assume nn: "nonneg_graph g"
  show ?thesis
  proof (cases "map_of g a")
    case None
    then show ?thesis by (simp add: get2_def row_of_def)
  next
    case (Some row)
    then have ro: "row_of g a = row" by (simp add: row_of_def)
    from Some have "(a, row) \<in> set g" by (rule map_of_SomeD)
    with nn have all: "\<forall>(v, c) \<in> set row. 0 \<le> c"
      unfolding nonneg_graph_def list_all_iff by auto
    show ?thesis
    proof (cases "map_of row b")
      case None
      then show ?thesis by (simp add: get2_def ro)
    next
      case (Some c)
      then have "(b, c) \<in> set row" by (rule map_of_SomeD)
      with all Some show ?thesis by (auto simp: get2_def ro)
    qed
  qed
qed

lemma sum_list_alist:
  fixes G :: "'k \<Rightarrow> 'v \<Rightarrow> int"
  assumes "distinct (map fst xs)"
  shows "sum_list (map (\<lambda>(k, x). G k x) xs) = (\<Sum>k \<in> fst ` set xs. G k (the (map_of xs k)))"
  using assms
proof (induction xs)
  case Nil
  show ?case by simp
next
  case (Cons e xs)
  obtain k x where e: "e = (k, x)" by (cases e)
  from Cons.prems e have nk: "k \<notin> fst ` set xs" and d: "distinct (map fst xs)" by auto
  have "(\<Sum>k' \<in> fst ` set (e # xs). G k' (the (map_of (e # xs) k')))
      = G k x + (\<Sum>k' \<in> fst ` set xs. G k' (the (map_of (e # xs) k')))"
    using nk by (simp add: e)
  also have "(\<Sum>k' \<in> fst ` set xs. G k' (the (map_of (e # xs) k')))
      = (\<Sum>k' \<in> fst ` set xs. G k' (the (map_of xs k')))"
    using nk by (intro sum.cong) (auto simp: e)
  finally show ?case using Cons.IH [OF d] by (simp add: e)
qed

lemma sum_extend:
  fixes F :: "'a \<Rightarrow> int"
  assumes "finite K" "finite N" "\<And>k. k \<in> K \<Longrightarrow> k \<notin> N \<Longrightarrow> F k = 0"
    "\<And>k. k \<in> N \<Longrightarrow> k \<notin> K \<Longrightarrow> F k = 0"
  shows "sum F K = sum F N"
proof -
  have "sum F K = sum F (K \<union> N)"
    using assms(1,2,4) by (intro sum.mono_neutral_left) auto
  moreover have "sum F N = sum F (K \<union> N)"
    using assms(1,2,3) by (intro sum.mono_neutral_left) auto
  ultimately show ?thesis by simp
qed

lemma outflow_sum:
  assumes wf: "wf_graph m" and fin: "finite N"
    and supp: "\<And>a b. get2 m a b \<noteq> 0 \<Longrightarrow> a \<in> N \<and> b \<in> N"
  shows "outflow m u = (\<Sum>v \<in> N. max 0 (get2 m u v))"
proof -
  let ?row = "row_of m u"
  have d: "distinct (map fst ?row)" using wf by (rule wf_graph_row)
  have g: "get2 m u v = the (map_of ?row v)" if "v \<in> fst ` set ?row" for v
    using that by (cases "map_of ?row v") (auto simp: get2_def map_of_eq_None_iff)
  have z: "get2 m u v = 0" if "v \<notin> fst ` set ?row" for v
    using that by (simp add: get2_not_ent ent_def)
  have "outflow m u = (\<Sum>v \<in> fst ` set ?row. max 0 (the (map_of ?row v)))"
    unfolding outflow_def using sum_list_alist [OF d, of "\<lambda>v f. max 0 f"] by simp
  also have "\<dots> = (\<Sum>v \<in> fst ` set ?row. max 0 (get2 m u v))"
    by (intro sum.cong) (simp_all add: g)
  also have "\<dots> = (\<Sum>v \<in> N. max 0 (get2 m u v))"
  proof (rule sum_extend)
    fix k assume "k \<in> fst ` set ?row" "k \<notin> N"
    with supp [of u k] have "get2 m u k = 0" by blast
    then show "max 0 (get2 m u k) = 0" by simp
  next
    fix k assume "k \<in> N" "k \<notin> fst ` set ?row"
    then show "max 0 (get2 m u k) = 0" by (simp add: z)
  qed (simp_all add: fin)
  finally show ?thesis .
qed

lemma inflow_sum:
  assumes wf: "wf_graph m" and fin: "finite N"
    and supp: "\<And>a b. get2 m a b \<noteq> 0 \<Longrightarrow> a \<in> N \<and> b \<in> N"
  shows "inflow m u = (\<Sum>w \<in> N. max 0 (get2 m w u))"
proof -
  have d: "distinct (map fst m)" using wf by (simp add: wf_graph_def)
  have g: "get2 m w u = (case map_of (the (map_of m w)) u of None \<Rightarrow> 0 | Some f \<Rightarrow> f)"
    if "w \<in> fst ` set m" for w
    using that by (cases "map_of m w") (auto simp: get2_def row_of_def map_of_eq_None_iff)
  have z: "get2 m w u = 0" if "w \<notin> fst ` set m" for w
  proof -
    from that have "map_of m w = None" by (simp add: map_of_eq_None_iff)
    then show ?thesis by (simp add: get2_def row_of_def)
  qed
  have "inflow m u = (\<Sum>w \<in> fst ` set m.
      max 0 (case map_of (the (map_of m w)) u of None \<Rightarrow> 0 | Some f \<Rightarrow> f))"
    unfolding inflow_def
    using sum_list_alist [OF d, of "\<lambda>w row. max 0 (case map_of row u of None \<Rightarrow> 0 | Some f \<Rightarrow> f)"]
    by simp
  also have "\<dots> = (\<Sum>w \<in> fst ` set m. max 0 (get2 m w u))"
    by (intro sum.cong) (simp_all add: g)
  also have "\<dots> = (\<Sum>w \<in> N. max 0 (get2 m w u))"
  proof (rule sum_extend)
    fix k assume "k \<in> fst ` set m" "k \<notin> N"
    with supp [of k u] have "get2 m k u = 0" by blast
    then show "max 0 (get2 m k u) = 0" by simp
  next
    fix k assume "k \<in> N" "k \<notin> fst ` set m"
    then show "max 0 (get2 m k u) = 0" by (simp add: z)
  qed (simp_all add: fin)
  finally show ?thesis .
qed

lemma conservation_pos:
  fixes F :: "'a \<Rightarrow> 'a \<Rightarrow> int"
  assumes anti: "\<And>a b. F a b = - F b a" and zero: "(\<Sum>v \<in> N. F u v) = 0"
  shows "(\<Sum>v \<in> N. max 0 (F v u)) = (\<Sum>v \<in> N. max 0 (F u v))"
proof -
  have "(\<Sum>v \<in> N. max 0 (F u v)) - (\<Sum>v \<in> N. max 0 (F v u))
      = (\<Sum>v \<in> N. max 0 (F u v) - max 0 (F v u))"
    by (simp add: sum_subtractf)
  also have "\<dots> = (\<Sum>v \<in> N. F u v)"
  proof (rule sum.cong)
    fix v
    show "max 0 (F u v) - max 0 (F v u) = F u v"
      using anti [of v u] by (simp add: max_def)
  qed simp
  finally show ?thesis using zero by simp
qed

lemma ek_inv_conservation:
  assumes "ek_inv g s t fl r mf" "u \<noteq> s" "u \<noteq> t"
  shows "inflow fl u = outflow fl u"
proof -
  let ?N = "set (nodes g)"
  from assms(1) have anti: "\<And>a b. get2 fl a b = - get2 fl b a"
    and wf: "wf_graph fl"
    and supp: "\<And>a b. get2 fl a b \<noteq> 0 \<Longrightarrow> a \<in> ?N \<and> b \<in> ?N"
    and cons: "\<And>u. u \<noteq> s \<Longrightarrow> u \<noteq> t \<Longrightarrow> (\<Sum>v \<in> ?N. get2 fl u v) = 0"
    unfolding ek_inv_def by blast+
  have "inflow fl u = (\<Sum>w \<in> ?N. max 0 (get2 fl w u))"
    by (rule inflow_sum [OF wf _ supp]) simp_all
  moreover have "outflow fl u = (\<Sum>v \<in> ?N. max 0 (get2 fl u v))"
    by (rule outflow_sum [OF wf _ supp]) simp_all
  moreover have "(\<Sum>v \<in> ?N. max 0 (get2 fl v u)) = (\<Sum>v \<in> ?N. max 0 (get2 fl u v))"
    by (rule conservation_pos [OF anti cons [OF assms(2,3)]])
  ultimately show ?thesis by simp
qed

lemma antisym_double_sum:
  fixes F :: "'a \<Rightarrow> 'a \<Rightarrow> int"
  assumes anti: "\<And>a b. F a b = - F b a"
  shows "(\<Sum>u \<in> S. \<Sum>v \<in> S. F u v) = 0"
proof -
  have "(\<Sum>u \<in> S. \<Sum>v \<in> S. F u v) = (\<Sum>u \<in> S. \<Sum>v \<in> S. - F v u)"
    by (intro sum.cong refl) (rule anti)
  also have "\<dots> = - (\<Sum>u \<in> S. \<Sum>v \<in> S. F v u)"
    by (simp add: sum_negf)
  also have "(\<Sum>u \<in> S. \<Sum>v \<in> S. F v u) = (\<Sum>u \<in> S. \<Sum>v \<in> S. F u v)"
    by (rule sum.swap)
  finally show ?thesis by simp
qed

lemma flow_value_cut:
  fixes F :: "'a \<Rightarrow> 'a \<Rightarrow> int"
  assumes anti: "\<And>a b. F a b = - F b a"
    and cons: "\<And>u. u \<noteq> s \<Longrightarrow> u \<noteq> t \<Longrightarrow> (\<Sum>v \<in> N. F u v) = 0"
    and fin: "finite N" and sub: "S \<subseteq> N" and s: "s \<in> S" and t: "t \<notin> S"
  shows "(\<Sum>u \<in> S. \<Sum>v \<in> N - S. F u v) = (\<Sum>v \<in> N. F s v)"
proof -
  have finS: "finite S" using fin sub by (rule rev_finite_subset)
  have split: "(\<Sum>v \<in> N. F u v) = (\<Sum>v \<in> S. F u v) + (\<Sum>v \<in> N - S. F u v)" for u
  proof -
    have "N = S \<union> (N - S)" using sub by auto
    then have "(\<Sum>v \<in> N. F u v) = (\<Sum>v \<in> S \<union> (N - S). F u v)" by simp
    also have "\<dots> = (\<Sum>v \<in> S. F u v) + (\<Sum>v \<in> N - S. F u v)"
      using finS fin by (intro sum.union_disjoint) auto
    finally show ?thesis .
  qed
  have "(\<Sum>u \<in> S. \<Sum>v \<in> N. F u v) = (\<Sum>v \<in> N. F s v) + (\<Sum>u \<in> S - {s}. \<Sum>v \<in> N. F u v)"
    using finS s by (rule sum.remove)
  also have "(\<Sum>u \<in> S - {s}. \<Sum>v \<in> N. F u v) = 0"
  proof (rule sum.neutral, rule ballI)
    fix u assume "u \<in> S - {s}"
    with t have "u \<noteq> s" "u \<noteq> t" by auto
    then show "(\<Sum>v \<in> N. F u v) = 0" by (rule cons)
  qed
  finally have 1: "(\<Sum>u \<in> S. \<Sum>v \<in> N. F u v) = (\<Sum>v \<in> N. F s v)" by simp
  have "(\<Sum>u \<in> S. \<Sum>v \<in> N. F u v)
      = (\<Sum>u \<in> S. \<Sum>v \<in> S. F u v) + (\<Sum>u \<in> S. \<Sum>v \<in> N - S. F u v)"
    unfolding split by (rule sum.distrib)
  with antisym_double_sum [of F S, OF anti] 1 show ?thesis by simp
qed

lemma finite_cuts: "finite (cuts g s t)"
  unfolding cuts_def by simp

lemma ek_min_cut:
  assumes inv: "ek_inv g s t fl r (Fin k)" and bi: "bfs_inv r s parent"
    and nv: "\<not> visited parent t"
    and cl: "\<forall>u v. visited parent u \<and> 0 < get2 r u v \<longrightarrow> visited parent v"
    and nn: "\<forall>a b. 0 \<le> get2 r a b" and kN: "keys r = set (nodes g)"
  shows "k = min_cut_capacity g s t"
proof -
  let ?N = "set (nodes g)"
  from inv have rel: "\<And>a b. get2 r a b = get2 g a b - get2 fl a b"
    and anti: "\<And>a b. get2 fl a b = - get2 fl b a"
    and cons: "\<And>u. u \<noteq> s \<Longrightarrow> u \<noteq> t \<Longrightarrow> (\<Sum>v \<in> ?N. get2 fl u v) = 0"
    and val: "Fin k = Fin (\<Sum>v \<in> ?N. get2 fl s v)"
    unfolding ek_inv_def by blast+
  from val have k: "k = (\<Sum>v \<in> ?N. get2 fl s v)" by simp
  have le: "get2 fl a b \<le> get2 g a b" for a b
    using nn [rule_format, of a b] rel [of a b] by simp
  have bound: "k \<le> cut_capacity g S" if "S \<in> cuts g s t" for S
  proof -
    from that have S: "S \<subseteq> ?N" "s \<in> S" "t \<notin> S" by (auto simp: cuts_def)
    have "k = (\<Sum>u \<in> S. \<Sum>v \<in> ?N - S. get2 fl u v)"
      unfolding k by (rule flow_value_cut [OF anti cons _ S, symmetric]) simp_all
    also have "\<dots> \<le> cut_capacity g S"
      unfolding cut_capacity_def by (intro sum_mono le)
    finally show ?thesis .
  qed
  define S0 where "S0 = {n. visited parent n}"
  have "keys parent = keys r" "map_of parent s = Some (Some s)"
    using bi by (simp_all add: bfs_inv_def)
  then have S0: "S0 \<subseteq> ?N" "s \<in> S0" "t \<notin> S0"
    using nv kN by (auto simp: S0_def visited_def keys_dom)
  then have mem: "S0 \<in> cuts g s t" by (simp add: cuts_def)
  have sat: "get2 fl u v = get2 g u v" if "u \<in> S0" "v \<notin> S0" for u v
  proof -
    from that cl have "\<not> 0 < get2 r u v" unfolding S0_def by blast
    with nn [rule_format, of u v] have "get2 r u v = 0" by simp
    with rel [of u v] show ?thesis by simp
  qed
  have "k = (\<Sum>u \<in> S0. \<Sum>v \<in> ?N - S0. get2 fl u v)"
    unfolding k by (rule flow_value_cut [OF anti cons _ S0, symmetric]) simp_all
  also have "\<dots> = cut_capacity g S0"
    unfolding cut_capacity_def by (intro sum.cong refl) (simp add: sat)
  finally have eq: "k = cut_capacity g S0" .
  show ?thesis
    unfolding min_cut_capacity_def
  proof (rule Min_eqI [symmetric])
    show "finite (cut_capacity g ` cuts g s t)" using finite_cuts by (rule finite_imageI)
    show "k \<le> y" if "y \<in> cut_capacity g ` cuts g s t" for y
      using that bound by auto
    show "k \<in> cut_capacity g ` cuts g s t" using eq mem by (rule image_eqI)
  qed
qed

lemma edmonds_karp_result:
  assumes "wf_graph g" "s \<in> set (nodes g)" "t \<in> set (nodes g)" "s \<noteq> t"
  shows "\<exists>k fl r. edmonds_karp g s t = Some (Inr (Fin k, fl)) \<and> ek_inv g s t fl r (Fin k)
      \<and> (nonneg_graph g \<longrightarrow> k = min_cut_capacity g s t \<and> (\<forall>a b. 0 \<le> get2 r a b))"
proof -
  from edmonds_karp_total [OF assms] obtain k fl r parent where
    res: "edmonds_karp g s t = Some (Inr (Fin k, fl))" and inv: "ek_inv g s t fl r (Fin k)"
    and bi: "bfs_inv r s parent" and nv: "\<not> visited parent t"
    and cl: "\<forall>u v. visited parent u \<and> 0 < get2 r u v \<longrightarrow> visited parent v"
    and nn: "(\<forall>a b. 0 \<le> get2 g a b) \<longrightarrow> (\<forall>a b. 0 \<le> get2 r a b)"
    by blast
  have kN: "keys r = set (nodes g)"
    using ek_inv_res_ok(2) [OF init_residual_props(3) [OF assms(1)] inv] .
  have "k = min_cut_capacity g s t \<and> (\<forall>a b. 0 \<le> get2 r a b)" if "nonneg_graph g"
  proof -
    from that have "\<forall>a b. 0 \<le> get2 g a b" by (simp add: nonneg_graph_get2)
    with nn have nnr: "\<forall>a b. 0 \<le> get2 r a b" by simp
    from ek_min_cut [OF inv bi nv cl nnr kN] nnr show ?thesis by simp
  qed
  with res inv show ?thesis by blast
qed

lemma edmonds_karp_same: "edmonds_karp g s s = None"
  unfolding edmonds_karp_def by (rule ek_loop_same)

lemma pchain_reachable:
  assumes "bfs_inv r s parent" "pchain parent s n es"
  shows "(s, n) \<in> {(a, b). 0 < get2 r a b}\<^sup>*"
  using assms(2)
proof (induction rule: pchain.induct)
  case pchain_source
  show ?case by simp
next
  case (pchain_step n p es)
  from assms(1) pchain_step(1,2) have "0 < get2 r p n" unfolding bfs_inv_def by blast
  then have "(p, n) \<in> {(a, b). 0 < get2 r a b}" by simp
  with pchain_step.IH show ?case by (rule rtrancl_into_rtrancl)
qed

lemma set_pos_edges:
  assumes "wf_graph g"
  shows "set (pos_edges g) = {(a, b). 0 < get2 g a b}"
proof (intro set_eqI iffI; clarify)
  fix a b assume "(a, b) \<in> set (pos_edges g)"
  then obtain row c where row: "(a, row) \<in> set g" and c: "(b, c) \<in> set row" "0 < c"
    unfolding pos_edges_def by auto
  from assms have "distinct (map fst g)" by (simp add: wf_graph_def)
  with row have m: "map_of g a = Some row" by simp
  then have ro: "row_of g a = row" by (simp add: row_of_def)
  from wf_graph_row [OF assms, of a] ro have "distinct (map fst row)" by simp
  with c(1) have "map_of row b = Some c" by simp
  with ro c(2) show "0 < get2 g a b" by (simp add: get2_def)
next
  fix a b assume pos: "0 < get2 g a b"
  then obtain row where m: "map_of g a = Some row"
    by (cases "map_of g a") (auto simp: get2_def row_of_def)
  from pos_in_row [OF m pos] have "(b, get2 g a b) \<in> set row" .
  moreover from m have "(a, row) \<in> set g" by (rule map_of_SomeD)
  ultimately show "(a, b) \<in> set (pos_edges g)"
    unfolding pos_edges_def using pos by force
qed

lemma edmonds_karp_unreachable:
  assumes wf: "wf_graph g" and sN: "s \<in> set (nodes g)" and tN: "t \<in> set (nodes g)"
    and un: "(s, t) \<notin> (set (pos_edges g))\<^sup>*"
  shows "edmonds_karp g s t = Some (Inr (Fin 0, []))"
proof -
  let ?r = "init_residual g"
  have ok: "res_ok ?r" using wf by (rule init_residual_props(3))
  have k: "keys ?r = set (nodes g)" by (rule init_residual_props(1))
  from bfs_loop_init [OF ok, of s t] sN tN k obtain parent where
    bl: "bfs_loop ?r t (init_parent ?r s) [s] = Inr parent" and bi: "bfs_inv ?r s parent"
    by auto
  have R: "{(a, b). 0 < get2 ?r a b} = set (pos_edges g)"
    unfolding set_pos_edges [OF wf] by (simp add: init_residual_props(2))
  have nv: "\<not> visited parent t"
  proof
    assume "visited parent t"
    with bi obtain es where "pchain parent s t es" unfolding bfs_inv_def by blast
    from pchain_reachable [OF bi this] un show False unfolding R by simp
  qed
  from bi have "keys parent = keys ?r" by (simp add: bfs_inv_def)
  with tN k obtain x where x: "map_of parent t = Some x" using map_of_keys_Some by metis
  with nv have "map_of parent t = Some None" by (cases x) (auto simp: visited_def)
  from ek_loop_stop [OF bl this] show ?thesis by (simp add: edmonds_karp_def)
qed

lemma edmonds_karp_absent:
  assumes st: "s \<noteq> t" and ab: "s \<notin> set (nodes g) \<or> t \<notin> set (nodes g)"
  shows "edmonds_karp g s t = Some (Inl KeyError)"
proof -
  let ?r = "init_residual g"
  have k: "keys ?r = set (nodes g)" by (rule init_residual_props(1))
  have bl: "bfs_loop ?r t (init_parent ?r s) [s] = Inl KeyError"
  proof (cases "t \<in> set (nodes g)")
    case False
    with st k have "map_of (init_parent ?r s) t = None" by (simp add: map_of_init_parent)
    then show ?thesis by (subst bfs_loop.simps) simp
  next
    case True
    with st k have 1: "map_of (init_parent ?r s) t = Some None" by (simp add: map_of_init_parent)
    from True ab k have "s \<notin> keys ?r" by simp
    then have 2: "map_of ?r s = None" by (simp add: map_of_None_keys)
    show ?thesis by (subst bfs_loop.simps) (simp add: 1 2)
  qed
  show ?thesis
    unfolding edmonds_karp_def by (subst ek_loop.simps) (simp only: bl sum.case)
qed

section \<open>Results\<close>

lemma scenario_a_result:
  "edmonds_karp scenario_a ''S'' ''T'' = Some (Inr (Fin 15, scenario_a_flow))"
  by code_simp

lemma scenario_a_wf:
  "wf_graph scenario_a" "nonneg_graph scenario_a"
  "''S'' \<in> set (nodes scenario_a)" "''T'' \<in> set (nodes scenario_a)"
  by code_simp+

text \<open>
  C1: for a capacity graph with non-negative integer capacities and source and sink in its
  node set, the value \<open>max_flow\<close> that \<open>edmonds_karp\<close> returns is the capacity of a
  minimum cut between source and sink. The call returns whenever source and sink differ;
  when they are equal it returns nothing.
\<close>

theorem max_flow_min_cut:
  assumes "wf_graph g" "nonneg_graph g" "source \<in> set (nodes g)" "sink \<in> set (nodes g)"
  shows "(source \<noteq> sink \<longrightarrow>
           (\<exists>flow. edmonds_karp g source sink
              = Some (Inr (Fin (min_cut_capacity g source sink), flow))))
       \<and> (\<forall>max_flow flow. edmonds_karp g source sink = Some (Inr (max_flow, flow))
             \<longrightarrow> max_flow = Fin (min_cut_capacity g source sink))"
proof (cases "source = sink")
  case True
  then show ?thesis by (simp add: edmonds_karp_same)
next
  case False
  from edmonds_karp_result [OF assms(1,3,4) False] assms(2) obtain k fl where
    "edmonds_karp g source sink = Some (Inr (Fin k, fl))" "k = min_cut_capacity g source sink"
    by blast
  then show ?thesis by auto
qed

theorem max_flow_min_cut_witness:
  "wf_graph scenario_a \<and> nonneg_graph scenario_a
   \<and> ''S'' \<in> set (nodes scenario_a) \<and> ''T'' \<in> set (nodes scenario_a)
   \<and> edmonds_karp scenario_a ''S'' ''T'' = Some (Inr (Fin 15, scenario_a_flow))
   \<and> min_cut_capacity scenario_a ''S'' ''T'' = 15"
proof -
  from max_flow_min_cut [OF scenario_a_wf] scenario_a_result
  have "Fin 15 = Fin (min_cut_capacity scenario_a ''S'' ''T'')" by blast
  then have "min_cut_capacity scenario_a ''S'' ''T'' = 15" by simp
  with scenario_a_wf scenario_a_result show ?thesis by simp
qed

text \<open>
  C2: on the network of \<open>build_logistics_graph\<close>, \<open>edmonds_karp\<close> from \<open>S\<close> to \<open>T\<close>
  returns without error a maximum flow of 115, the sum of the two capacities leaving \<open>S\<close>.
\<close>

theorem logistics_max_flow:
  "map_option (map_sum id fst) (edmonds_karp build_logistics_graph ''S'' ''T'')
     = Some (Inr (Fin 115))
   \<and> sum_list (map snd (row_of build_logistics_graph ''S'')) = 115"
  by code_simp

text \<open>
  C3: for a capacity graph with source and sink in its node set, in the flow map that
  \<open>edmonds_karp\<close> returns every node other than the source and the sink has equal inflow
  and outflow. This holds whatever the signs of the capacities, so in particular for
  non-negative ones; the call returns whenever source and sink differ.
\<close>

theorem flow_conservation:
  assumes "wf_graph g" "nonneg_graph g" "source \<in> set (nodes g)" "sink \<in> set (nodes g)"
  shows "(source \<noteq> sink \<longrightarrow>
           (\<exists>max_flow flow. edmonds_karp g source sink = Some (Inr (max_flow, flow))))
       \<and> (\<forall>max_flow flow u. edmonds_karp g source sink = Some (Inr (max_flow, flow))
             \<and> u \<noteq> source \<and> u \<noteq> sink \<longrightarrow> inflow flow u = outflow flow u)"
proof (cases "source = sink")
  case True
  then show ?thesis by (simp add: edmonds_karp_same)
next
  case False
  from edmonds_karp_result [OF assms(1,3,4) False] obtain k fl r where
    res: "edmonds_karp g source sink = Some (Inr (Fin k, fl))"
    and inv: "ek_inv g source sink fl r (Fin k)" by blast
  have "inflow fl u = outflow fl u" if "u \<noteq> source" "u \<noteq> sink" for u
    using inv that by (rule ek_inv_conservation)
  with res show ?thesis by auto
qed

theorem flow_conservation_witness:
  "wf_graph scenario_a \<and> nonneg_graph scenario_a
   \<and> ''S'' \<in> set (nodes scenario_a) \<and> ''T'' \<in> set (nodes scenario_a)
   \<and> edmonds_karp scenario_a ''S'' ''T'' = Some (Inr (Fin 15, scenario_a_flow))
   \<and> inflow scenario_a_flow ''A'' = outflow scenario_a_flow ''A''
   \<and> inflow scenario_a_flow ''B'' = outflow scenario_a_flow ''B''
   \<and> outflow scenario_a_flow ''A'' = 10"
proof -
  note c = flow_conservation [OF scenario_a_wf, THEN conjunct2, rule_format,
      of "Fin 15" scenario_a_flow]
  have "inflow scenario_a_flow ''A'' = outflow scenario_a_flow ''A''"
    by (rule c) (simp add: scenario_a_result)
  moreover have "inflow scenario_a_flow ''B'' = outflow scenario_a_flow ''B''"
    by (rule c) (simp add: scenario_a_result)
  moreover have "outflow scenario_a_flow ''A'' = 10" by code_simp
  ultimately show ?thesis using scenario_a_wf scenario_a_result by simp
qed

text \<open>
  C4, as stated, fails: the flow map is antisymmetric, so an edge that carries flow has a
  negative entry in the opposite direction, where the capacity is 0. On the graph with the
  single edge \<open>S\<rightarrow>T\<close> of capacity 1 the returned entry \<open>flow[T][S]\<close> is \<open>-1\<close> and
  \<open>capacity(T, S)\<close> is 0.
\<close>

theorem capacity_abs_counterexample:
  "edmonds_karp [(''S'', [(''T'', 1)])] ''S'' ''T''
     = Some (Inr (Fin 1, [(''S'', [(''T'', 1)]), (''T'', [(''S'', - 1)])]))
   \<and> \<not> \<bar>get2 [(''S'', [(''T'', 1)]), (''T'', [(''S'', - 1)])] ''T'' ''S''\<bar>
         \<le> get2 [(''S'', [(''T'', 1 :: int)])] ''T'' ''S''"
  by code_simp

text \<open>
  C4, amended: for a capacity graph with non-negative integer capacities and source and sink
  in its node set, the flow map that \<open>edmonds_karp\<close> returns satisfies, for every ordered
  pair of nodes, \<open>flow(u, v) \<le> capacity(u, v)\<close> (an absent edge has capacity 0) and
  \<open>flow(u, v) = - flow(v, u)\<close>.
\<close>

theorem capacity_respect:
  assumes "wf_graph g" "nonneg_graph g" "source \<in> set (nodes g)" "sink \<in> set (nodes g)"
  shows "(source \<noteq> sink \<longrightarrow>
           (\<exists>max_flow flow. edmonds_karp g source sink = Some (Inr (max_flow, flow))))
       \<and> (\<forall>max_flow flow u v. edmonds_karp g source sink = Some (Inr (max_flow, flow))
             \<longrightarrow> get2 flow u v \<le> get2 g u v \<and> get2 flow u v = - get2 flow v u)"
proof (cases "source = sink")
  case True
  then show ?thesis by (simp add: edmonds_karp_same)
next
  case False
  from edmonds_karp_result [OF assms(1,3,4) False] assms(2) obtain k fl r where
    res: "edmonds_karp g source sink = Some (Inr (Fin k, fl))"
    and inv: "ek_inv g source sink fl r (Fin k)" and nn: "\<forall>a b. 0 \<le> get2 r a b" by blast
  from inv have rel: "\<And>a b. get2 r a b = get2 g a b - get2 fl a b"
    and anti: "\<And>a b. get2 fl a b = - get2 fl b a"
    unfolding ek_inv_def by blast+
  have le: "get2 fl u v \<le> get2 g u v" for u v
    using nn [rule_format, of u v] rel [of u v] by linarith
  show ?thesis
  proof (intro conjI impI allI)
    show "\<exists>max_flow flow. edmonds_karp g source sink = Some (Inr (max_flow, flow))"
      using res by blast
  next
    fix max_flow flow u v
    assume "edmonds_karp g source sink = Some (Inr (max_flow, flow))"
    with res have eq: "flow = fl" by simp
    show "get2 flow u v \<le> get2 g u v" unfolding eq by (rule le)
    show "get2 flow u v = - get2 flow v u" unfolding eq by (rule anti)
  qed
qed

theorem capacity_respect_witness:
  "wf_graph scenario_a \<and> nonneg_graph scenario_a
   \<and> ''S'' \<in> set (nodes scenario_a) \<and> ''T'' \<in> set (nodes scenario_a)
   \<and> edmonds_karp scenario_a ''S'' ''T'' = Some (Inr (Fin 15, scenario_a_flow))
   \<and> get2 scenario_a_flow ''S'' ''A'' \<le> get2 scenario_a ''S'' ''A''
   \<and> get2 scenario_a_flow ''S'' ''A'' = - get2 scenario_a_flow ''A'' ''S''
   \<and> get2 scenario_a_flow ''S'' ''A'' = 10"
proof -
  note c = capacity_respect [OF scenario_a_wf, THEN conjunct2, rule_format,
      of "Fin 15" scenario_a_flow, OF scenario_a_result]
  have "get2 scenario_a_flow ''S'' ''A'' = 10" by code_simp
  with c [of "''S''" "''A''"] scenario_a_wf scenario_a_result show ?thesis by simp
qed

text \<open>
  C6, as stated, fails: the code has no check of its arguments and no \<open>InvalidGraph\<close>
  error. When source and sink are the same absent node, the search ends at once with the
  sink discovered, the path is empty, and the loop never ends: no error is raised.
\<close>

theorem absent_node_counterexample:
  "edmonds_karp [(''a'', [(''b'', 1)])] ''x'' ''x'' = None"
  by (rule edmonds_karp_same)

text \<open>
  C6, amended: for every capacity graph and every source and sink that differ, when the
  source or the sink is absent from the node set \<open>edmonds_karp\<close> fails with the
  \<open>KeyError\<close> of the first lookup of the absent node, in the first breadth-first search,
  before any flow is recorded.
\<close>

theorem absent_node_key_error:
  assumes "source \<noteq> sink" "source \<notin> set (nodes g) \<or> sink \<notin> set (nodes g)"
  shows "edmonds_karp g source sink = Some (Inl KeyError)"
  using assms by (rule edmonds_karp_absent)

theorem absent_node_key_error_witness:
  "''x'' \<noteq> ''b'' \<and> ''x'' \<notin> set (nodes [(''a'', [(''b'', 1)])])
   \<and> edmonds_karp [(''a'', [(''b'', 1)])] ''x'' ''b'' = Some (Inl KeyError)
   \<and> edmonds_karp [(''a'', [(''b'', 1)])] ''a'' ''x'' = Some (Inl KeyError)"
proof -
  have 1: "''x'' \<noteq> ''b''" "''a'' \<noteq> ''x''" by simp_all
  have 2: "''x'' \<notin> set (nodes [(''a'', [(''b'', 1 :: int)])])" by (simp add: nodes_def)
  from absent_node_key_error [OF 1(1), of "[(''a'', [(''b'', 1)])]"]
    absent_node_key_error [OF 1(2), of "[(''a'', [(''b'', 1)])]"] 1 2
  show ?thesis by simp
qed

text \<open>
  C7: for a capacity graph with source and sink in its node set, when the sink cannot be
  reached from the source along edges of positive capacity, \<open>edmonds_karp\<close> returns the
  value 0 and an empty flow map, and raises no error.
\<close>

theorem unreachable_sink:
  assumes "wf_graph g" "source \<in> set (nodes g)" "sink \<in> set (nodes g)"
    and "(source, sink) \<notin> (set (pos_edges g))\<^sup>*"
  shows "edmonds_karp g source sink = Some (Inr (Fin 0, []))"
  using assms by (rule edmonds_karp_unreachable)

theorem unreachable_sink_witness:
  "wf_graph [(''S'', [(''A'', 5)]), (''T'', [(''A'', 2)])]
   \<and> ''S'' \<in> set (nodes [(''S'', [(''A'', 5)]), (''T'', [(''A'', 2)])])
   \<and> ''T'' \<in> set (nodes [(''S'', [(''A'', 5)]), (''T'', [(''A'', 2)])])
   \<and> (''S'', ''T'') \<notin> (set (pos_edges [(''S'', [(''A'', 5)]), (''T'', [(''A'', 2)])]))\<^sup>*
   \<and> edmonds_karp [(''S'', [(''A'', 5)]), (''T'', [(''A'', 2)])] ''S'' ''T''
       = Some (Inr (Fin 0, []))"
proof -
  let ?g = "[(''S'', [(''A'', 5 :: int)]), (''T'', [(''A'', 2)])]"
  have 1: "wf_graph ?g" by code_simp
  have 2: "''S'' \<in> set (nodes ?g)" "''T'' \<in> set (nodes ?g)" by code_simp+
  have "(''S'', ''T'') \<notin> (set (pos_edges ?g))\<^sup>+" by code_simp
  then have 3: "(''S'', ''T'') \<notin> (set (pos_edges ?g))\<^sup>*"
    by (simp add: rtrancl_eq_or_trancl)
  from unreachable_sink [OF 1 2 3] 1 2 3 show ?thesis by simp
qed

text \<open>
  C8, as stated, fails: nothing in the code checks the sign of a capacity and there is no
  \<open>NegativeCapacity\<close> error. A graph whose only edge has capacity \<open>-1\<close> is accepted, and
  the computation returns the value 0 and an empty flow map.
\<close>

theorem negative_capacity_counterexample:
  "edmonds_karp [(''S'', [(''T'', - 1)])] ''S'' ''T'' = Some (Inr (Fin 0, []))"
  by code_simp

text \<open>
  C8, amended: a graph with an edge of capacity below zero is not rejected. For source
  and sink that differ and are in the node set, \<open>edmonds_karp\<close> runs to its end and returns
  a flow value and a flow map, with no error.
\<close>

theorem negative_capacity_accepted:
  assumes "wf_graph g" "\<not> nonneg_graph g" "source \<in> set (nodes g)" "sink \<in> set (nodes g)"
    "source \<noteq> sink"
  shows "\<exists>k flow. edmonds_karp g source sink = Some (Inr (Fin k, flow))"
  using edmonds_karp_result [OF assms(1,3,4,5)] by blast

theorem negative_capacity_accepted_witness:
  "wf_graph [(''S'', [(''T'', - 1)])] \<and> \<not> nonneg_graph [(''S'', [(''T'', - 1)])]
   \<and> ''S'' \<in> set (nodes [(''S'', [(''T'', - 1)])])
   \<and> ''T'' \<in> set (nodes [(''S'', [(''T'', - 1)])]) \<and> ''S'' \<noteq> ''T''
   \<and> (\<exists>k flow. edmonds_karp [(''S'', [(''T'', - 1)])] ''S'' ''T'' = Some (Inr (Fin k, flow)))"
proof -
  let ?g = "[(''S'', [(''T'', - 1 :: int)])]"
  have 1: "wf_graph ?g" by code_simp
  have 2: "\<not> nonneg_graph ?g" by code_simp
  have 3: "''S'' \<in> set (nodes ?g)" "''T'' \<in> set (nodes ?g)" by code_simp+
  have 4: "''S'' \<noteq> ''T''" by simp
  from negative_capacity_accepted [OF 1 2 3 4] 1 2 3 4 show ?thesis by blast
qed

end
